theory Spec2Isabelle
  imports Main
begin

section \<open>The key-value store\<close>

text \<open>
  The cache helpers talk to a Redis client. The client is a collaborator of the
  code, so the store is modelled by the commands the code issues: \<open>GET\<close>,
  \<open>SET\<close> with and without \<open>EX\<close>, \<open>SETNX\<close>, \<open>EXPIRE\<close>, \<open>DEL\<close>, \<open>INCRBY\<close>.
  Time is in milliseconds, as \<open>Date.now()\<close> gives it; an \<open>EX\<close> argument is in seconds.
  A key holds a value and the instant at which it expires (\<open>None\<close>: it never does).
  An expired key stays in the map and is invisible to every command.
  Redis refuses \<open>EX 0\<close>; the model is meant for positive expiry times, and the
  theorems that depend on an expiry assume one.
  The packed codec (\<open>redis.packed\<close>) is taken to decode what it encoded.
\<close>

type_synonym time = int

type_synonym ('k, 'v) redis = "'k \<Rightarrow> ('v \<times> time option) option"

definition live :: "time \<Rightarrow> time option \<Rightarrow> bool" where
  "live now ex = (case ex of None \<Rightarrow> True | Some t \<Rightarrow> now < t)"

definition expires_at :: "time \<Rightarrow> nat \<Rightarrow> time" where
  "expires_at now secs = now + 1000 * int secs"

definition r_get :: "time \<Rightarrow> ('k, 'v) redis \<Rightarrow> 'k \<Rightarrow> 'v option" where
  "r_get now s k =
     (case s k of
        None \<Rightarrow> None
      | Some (v, ex) \<Rightarrow> if live now ex then Some v else None)"

text \<open>\<open>SET key value [EX secs]\<close>: overwrites the value and the expiry.\<close>

definition r_set :: "time \<Rightarrow> ('k, 'v) redis \<Rightarrow> 'k \<Rightarrow> 'v \<Rightarrow> nat option \<Rightarrow> ('k, 'v) redis" where
  "r_set now s k v ex = s(k \<mapsto> (v, map_option (expires_at now) ex))"

text \<open>\<open>SETNX key value\<close>: writes only when the key holds nothing; it takes no expiry.\<close>

definition r_setNX :: "time \<Rightarrow> ('k, 'v) redis \<Rightarrow> 'k \<Rightarrow> 'v \<Rightarrow> ('k, 'v) redis" where
  "r_setNX now s k v =
     (case r_get now s k of
        None \<Rightarrow> s(k \<mapsto> (v, None))
      | Some _ \<Rightarrow> s)"

text \<open>\<open>EXPIRE key secs\<close>: sets the expiry of a key that exists, whatever it holds.\<close>

definition r_expire :: "time \<Rightarrow> ('k, 'v) redis \<Rightarrow> 'k \<Rightarrow> nat \<Rightarrow> ('k, 'v) redis" where
  "r_expire now s k secs =
     (case r_get now s k of
        None \<Rightarrow> s
      | Some v \<Rightarrow> s(k \<mapsto> (v, Some (expires_at now secs))))"

definition r_del :: "('k, 'v) redis \<Rightarrow> 'k \<Rightarrow> ('k, 'v) redis" where
  "r_del s k = s(k := None)"

text \<open>\<open>INCRBY key n\<close>: a missing key counts as 0 and is created without expiry;
  an existing one keeps its expiry.\<close>

definition r_incrBy :: "time \<Rightarrow> ('k, int) redis \<Rightarrow> 'k \<Rightarrow> int \<Rightarrow> ('k, int) redis" where
  "r_incrBy now s k n =
     (case s k of
        None \<Rightarrow> s(k \<mapsto> (n, None))
      | Some (v, ex) \<Rightarrow> if live now ex then s(k \<mapsto> (v + n, ex)) else s(k \<mapsto> (n, None)))"

text \<open>
  The commands the helpers are seen to issue, and what the writing ones do to the
  store. \<open>SET\<close> carries the \<open>EX\<close> option when there is one.
\<close>

datatype ('k, 'v) cmd =
    SMEMBERS 'k
  | MGET "'k list"
  | SET 'k 'v "nat option"
  | SETNX 'k 'v
  | EXPIRE 'k nat
  | DEL 'k

fun exec :: "time \<Rightarrow> ('k, 'v) redis \<Rightarrow> ('k, 'v) cmd \<Rightarrow> ('k, 'v) redis" where
  "exec now s (SMEMBERS k) = s"
| "exec now s (MGET ks) = s"
| "exec now s (SET k v ex) = r_set now s k v ex"
| "exec now s (SETNX k v) = r_setNX now s k v"
| "exec now s (EXPIRE k secs) = r_expire now s k secs"
| "exec now s (DEL k) = r_del s k"

section \<open>queryCache and the tag registry\<close>

text \<open>
  \<open>queryCache\<close> and \<open>bustCacheTag\<close> share one key space: a key holds a packed query
  result (an array of rows) or a set of strings (the keys filed under a tag). Redis
  answers \<open>WRONGTYPE\<close> when a string command meets a set or a set command meets a
  string; that is the only failure modelled, and it ends the operation where it
  happens, with the writes made so far in place. \<open>redis.packed.sMembers\<close> is taken to
  return the members \<open>redis.sAdd\<close> added, in some order.
\<close>

datatype error = WrongType

datatype 'r rval = Packed "'r list" | Members "string list"

type_synonym 'r qstore = "(string, 'r rval) redis"

definition packed_get :: "time \<Rightarrow> 'r qstore \<Rightarrow> string \<Rightarrow> error + 'r list option" where
  "packed_get now s k =
     (case r_get now s k of
        None \<Rightarrow> Inr None
      | Some (Packed rows) \<Rightarrow> Inr (Some rows)
      | Some (Members ms) \<Rightarrow> Inl WrongType)"

definition sMembers :: "time \<Rightarrow> 'r qstore \<Rightarrow> string \<Rightarrow> error + string list" where
  "sMembers now s k =
     (case r_get now s k of
        None \<Rightarrow> Inr []
      | Some (Members ms) \<Rightarrow> Inr ms
      | Some (Packed rows) \<Rightarrow> Inl WrongType)"

text \<open>\<open>SADD\<close> creates the set when the key holds nothing and keeps the expiry of a
  set that exists.\<close>

definition sAdd :: "time \<Rightarrow> 'r qstore \<Rightarrow> string \<Rightarrow> string \<Rightarrow> error + 'r qstore" where
  "sAdd now s k m =
     (case s k of
        None \<Rightarrow> Inr (s(k \<mapsto> (Members [m], None)))
      | Some (v, ex) \<Rightarrow>
          if \<not> live now ex then Inr (s(k \<mapsto> (Members [m], None)))
          else (case v of
                  Members ms \<Rightarrow> Inr (s(k \<mapsto> (Members (if m \<in> set ms then ms else ms @ [m]), ex)))
                | Packed rows \<Rightarrow> Inl WrongType))"

text \<open>\<open>tag: string | string[]\<close>, and \<open>Array.isArray(tag) ? tag : [tag]\<close>.\<close>

datatype tagspec = OneTag string | ManyTags "string list"

fun tags_of :: "tagspec \<Rightarrow> string list" where
  "tags_of (OneTag t) = [t]"
| "tags_of (ManyTags ts) = ts"

text \<open>\<open>if (options?.tag)\<close>: an empty string is falsy, every array is truthy.\<close>

fun tag_truthy :: "tagspec \<Rightarrow> bool" where
  "tag_truthy (OneTag t) = (t \<noteq> [])"
| "tag_truthy (ManyTags ts) = True"

definition tagKey :: "string \<Rightarrow> string" where
  "tagKey t = ''tag:'' @ t"

record cachedQueryOptions =
  opt_ttl :: nat
  opt_tag :: tagspec

fun tagLoop :: "time \<Rightarrow> string \<Rightarrow> string list \<Rightarrow> 'r qstore \<Rightarrow> error option \<times> 'r qstore" where
  "tagLoop now key [] s = (None, s)"
| "tagLoop now key (t # ts) s =
     (case sAdd now s (tagKey t) key of
        Inl e \<Rightarrow> (Some e, s)
      | Inr s' \<Rightarrow> tagLoop now key ts s')"

definition tagCacheKey :: "time \<Rightarrow> 'r qstore \<Rightarrow> string \<Rightarrow> tagspec \<Rightarrow> error option \<times> 'r qstore" where
  "tagCacheKey now s key tg = tagLoop now key (tags_of tg) s"

text \<open>\<open>[key, version, hashifyObject(query).toString()].filter(isDefined).join(':')\<close>.
  \<open>hashifyObject\<close> is not part of the sources; the hash string is a parameter.\<close>

fun join :: "string \<Rightarrow> string list \<Rightarrow> string" where
  "join sep [] = []"
| "join sep [x] = x"
| "join sep (x # y # ys) = x @ sep @ join sep (y # ys)"

definition cacheKeyOf :: "string \<Rightarrow> string option \<Rightarrow> string \<Rightarrow> string" where
  "cacheKeyOf key version h =
     join '':'' (List.map_filter id [Some key, version, Some h])"

record ('q, 'r) run_result =
  rr_value :: "error + 'r list"
  rr_store :: "'r qstore"
  rr_queries :: "'q list"

text \<open>
  The function \<open>queryCache(db, key, version)\<close> returns. \<open>db\<close> stands for
  \<open>db.$queryRaw\<close>; \<open>rr_queries\<close> lists the queries it was given. An array is truthy
  also when it is empty, so \<open>cachedData && ...\<close> tests that the key held something.
  On this path \<open>options?.ttl\<close> is not \<open>0\<close>; \<open>{ EX: undefined }\<close> sets no expiry.
\<close>

definition queryCache ::
  "('q \<Rightarrow> 'r list) \<Rightarrow> ('q \<Rightarrow> string) \<Rightarrow> string \<Rightarrow> string option \<Rightarrow>
   time \<Rightarrow> 'r qstore \<Rightarrow> 'q \<Rightarrow> cachedQueryOptions option \<Rightarrow> ('q, 'r) run_result" where
  "queryCache db hashify key version now s query options =
     (if map_option opt_ttl options = Some 0
      then \<lparr>rr_value = Inr (db query), rr_store = s, rr_queries = [query]\<rparr>
      else
        (let cacheKey = cacheKeyOf key version (hashify query) in
         case packed_get now s cacheKey of
           Inl e \<Rightarrow> \<lparr>rr_value = Inl e, rr_store = s, rr_queries = []\<rparr>
         | Inr (Some cachedData) \<Rightarrow> \<lparr>rr_value = Inr cachedData, rr_store = s, rr_queries = []\<rparr>
         | Inr None \<Rightarrow>
             (let result = db query;
                  s1 = r_set now s cacheKey (Packed result) (map_option opt_ttl options)
              in case options of
                   None \<Rightarrow> \<lparr>rr_value = Inr result, rr_store = s1, rr_queries = [query]\<rparr>
                 | Some opts \<Rightarrow>
                     if tag_truthy (opt_tag opts)
                     then (case tagCacheKey now s1 cacheKey (opt_tag opts) of
                             (Some e, s2) \<Rightarrow> \<lparr>rr_value = Inl e, rr_store = s2, rr_queries = [query]\<rparr>
                           | (None, s2) \<Rightarrow> \<lparr>rr_value = Inr result, rr_store = s2, rr_queries = [query]\<rparr>)
                     else \<lparr>rr_value = Inr result, rr_store = s1, rr_queries = [query]\<rparr>)))"

text \<open>\<open>bustCacheTag\<close> returns nothing; the model returns the failure if there is one,
  the store, and the commands issued, in the order the code awaits them.\<close>

fun bustLoop :: "time \<Rightarrow> string list \<Rightarrow> 'r qstore \<Rightarrow> error option \<times> 'r qstore \<times> (string, 'r rval) cmd list" where
  "bustLoop now [] s = (None, s, [])"
| "bustLoop now (t # ts) s =
     (case sMembers now s (tagKey t) of
        Inl e \<Rightarrow> (Some e, s, [SMEMBERS (tagKey t)])
      | Inr keys \<Rightarrow>
          (let s1 = foldl r_del s keys;
               s2 = r_del s1 (tagKey t);
               (e, s3, cs) = bustLoop now ts s2
           in (e, s3, SMEMBERS (tagKey t) # map DEL keys @ DEL (tagKey t) # cs)))"

definition bustCacheTag :: "time \<Rightarrow> 'r qstore \<Rightarrow> tagspec \<Rightarrow> error option \<times> 'r qstore \<times> (string, 'r rval) cmd list" where
  "bustCacheTag now s tg = bustLoop now (tags_of tg) s"

section \<open>cachedCounter\<close>

text \<open>
  \<open>cachedCounter(rootKey, fetchFn?, {ttl})\<close>. The counter of \<open>id\<close> lives under the key
  \<open>`${rootKey}:${id}`\<close>; with \<open>rootKey\<close> fixed this is one key per id, so the store is
  indexed by the id. The store holds the counter as an integer, which \<open>INCRBY\<close>
  increments exactly. (Redis keeps 64-bit integers and refuses an increment that leaves
  that range; the integers of the model are unbounded.)

  In the code the counter is a JavaScript number, a double. An integer that \<open>Number\<close>
  reads or that \<open>+\<close> produces is rounded to the nearest double, ties to the even
  significand: an integer of magnitude up to \<open>2^53\<close> is kept as it is, a larger one keeps
  its 53 leading bits. \<open>excess a\<close> is the number of bits of \<open>a\<close> beyond 53. The values
  \<open>fetchFn\<close> returns and the amounts are numbers of the code and are taken to be
  integers.
\<close>

function excess :: "nat \<Rightarrow> nat" where
  "excess a = (if a < 2 ^ 53 then 0 else Suc (excess (a div 2)))"
  by pat_completeness auto
termination
  by (relation "measure id") auto

definition to_double :: "int \<Rightarrow> int" where
  "to_double n =
     (let a = nat \<bar>n\<bar>;
          e = excess a;
          q = a div 2 ^ e;
          r = a mod 2 ^ e;
          m = (if 2 ^ e < 2 * r \<or> (2 * r = 2 ^ e \<and> odd q) then q + 1 else q)
      in sgn n * int (m * 2 ^ e))"

text \<open>\<open>a + b\<close> on two numbers: the sum, rounded.\<close>

definition js_plus :: "int \<Rightarrow> int \<Rightarrow> int" where
  "js_plus a b = to_double (a + b)"

text \<open>
  \<open>fetchFn\<close> is optional (\<open>fetchFn?.(id) ?? 0\<close>). An operation returns its value, the
  store it leaves and the ids it called \<open>fetchFn\<close> with. In \<open>get\<close>,
  \<open>Number((await redis.get(key)) ?? 0)\<close> is 0 for a key that holds nothing, and
  \<open>if (cachedCount)\<close> tests that the number is not 0.
\<close>

record 'k counter_result =
  cr_value :: int
  cr_store :: "('k, int) redis"
  cr_fetched :: "'k list"

definition counter_get ::
  "nat \<Rightarrow> ('k \<Rightarrow> int) option \<Rightarrow> time \<Rightarrow> ('k, int) redis \<Rightarrow> 'k \<Rightarrow> 'k counter_result" where
  "counter_get ttl fetchFn now s ident =
     (let cachedCount = to_double (case r_get now s ident of None \<Rightarrow> 0 | Some c \<Rightarrow> c) in
      if cachedCount \<noteq> 0 then \<lparr>cr_value = cachedCount, cr_store = s, cr_fetched = []\<rparr>
      else
        (let count = (case fetchFn of None \<Rightarrow> 0 | Some f \<Rightarrow> f ident) in
         \<lparr>cr_value = count,
          cr_store = r_set now s ident count (Some ttl),
          cr_fetched = (case fetchFn of None \<Rightarrow> [] | Some f \<Rightarrow> [ident])\<rparr>))"

text \<open>\<open>incrementBy(id, amount = 1)\<close>: an argument left out is 1. The value returned is
  \<open>count + amount\<close> on numbers; the store is incremented by \<open>INCRBY\<close>.\<close>

definition amount_or_default :: "int option \<Rightarrow> int" where
  "amount_or_default a = (case a of None \<Rightarrow> 1 | Some n \<Rightarrow> n)"

definition incrementBy ::
  "nat \<Rightarrow> ('k \<Rightarrow> int) option \<Rightarrow> time \<Rightarrow> ('k, int) redis \<Rightarrow> 'k \<Rightarrow> int option \<Rightarrow> 'k counter_result" where
  "incrementBy ttl fetchFn now s ident amount_arg =
     (let amount = amount_or_default amount_arg;
          count = counter_get ttl fetchFn now s ident
      in \<lparr>cr_value = js_plus (cr_value count) amount,
          cr_store = r_incrBy now (cr_store count) ident amount,
          cr_fetched = cr_fetched count\<rparr>)"

definition clear :: "('k, int) redis \<Rightarrow> 'k \<Rightarrow> ('k, int) redis" where
  "clear s ident = r_del s ident"

section \<open>createCachedArray\<close>

text \<open>
  \<open>createCachedArray({key, idKey, lookupFn, appendFn, ttl, debounceTime, cacheNotFound})\<close>.
  The entity with id \<open>i\<close> is cached under \<open>`${key}:${i}`\<close>; with \<open>key\<close> fixed this is one
  key per id, so the store is indexed by the id.

  A cached object is an entity of type \<open>T\<close> or one of the two markers the code writes,
  and the code reads the same four properties off each: \<open>x[idKey]\<close>, \<open>x.notFound\<close>,
  \<open>x.debounce\<close> and \<open>x.cachedAt\<close>. An object is a record of these and of the rest of
  its fields (\<open>rest = None\<close> for a marker, which has no other field). \<open>notFound\<close> and
  \<open>debounce\<close> hold the truthiness of the property; \<open>cachedAt = None\<close> is an object
  without the property.
\<close>

record 'a obj =
  idv :: int
  rest :: "'a option"
  notFound :: bool
  debounce :: bool
  cachedAt :: "time option"

text \<open>\<open>{ [idKey]: id, notFound: true, cachedAt }\<close> and \<open>{ [idKey]: id, debounce: true }\<close>.\<close>

definition tombstone :: "time \<Rightarrow> int \<Rightarrow> 'a obj" where
  "tombstone now i = \<lparr>idv = i, rest = None, notFound = True, debounce = False, cachedAt = Some now\<rparr>"

definition marker :: "int \<Rightarrow> 'a obj" where
  "marker i = \<lparr>idv = i, rest = None, notFound = False, debounce = True, cachedAt = None\<rparr>"

text \<open>\<open>cached.cachedAt > cacheDebounceCutoff\<close>. Both sides are converted to numbers;
  a missing \<open>cachedAt\<close> is \<open>undefined\<close>, which converts to \<open>NaN\<close>, and every comparison
  with \<open>NaN\<close> is false.\<close>

definition date_gt :: "time option \<Rightarrow> time \<Rightarrow> bool" where
  "date_gt t cutoff = (case t of None \<Rightarrow> False | Some u \<Rightarrow> cutoff < u)"

text \<open>
  A \<open>Record<string, T>\<close> keyed by ids is given by its entries, as \<open>Object.entries\<close>
  lists them. \<open>Object.assign\<close> and \<open>Object.fromEntries\<close> set one property after the
  other, so a later entry for a key replaces an earlier one.
\<close>

definition assign :: "('k \<rightharpoonup> 'v) \<Rightarrow> ('k \<times> 'v) list \<Rightarrow> ('k \<rightharpoonup> 'v)" where
  "assign target src = foldl (\<lambda>m (k, v). m(k \<mapsto> v)) target src"

definition fromEntries :: "('k \<times> 'v) list \<Rightarrow> ('k \<rightharpoonup> 'v)" where
  "fromEntries entries = assign Map.empty entries"

text \<open>A \<open>Set<number>\<close> is the list of its elements in insertion order.\<close>

definition set_add :: "'x list \<Rightarrow> 'x \<Rightarrow> 'x list" where
  "set_add xs x = (if x \<in> set xs then xs else xs @ [x])"

definition new_Set :: "'x list \<Rightarrow> 'x list" where
  "new_Set xs = foldl set_add [] xs"

text \<open>lodash's \<open>chunk(array, size)\<close>: consecutive slices of length \<open>size\<close>, the last one
  shorter when the length is no multiple; no slice when \<open>size\<close> is below 1.\<close>

function chunk :: "'x list \<Rightarrow> nat \<Rightarrow> 'x list list" where
  "chunk xs n = (if n = 0 \<or> xs = [] then [] else take n xs # chunk (drop n xs) n)"
  by pat_completeness auto
termination
  by (relation "measure (\<lambda>(xs, n). length xs)") auto

record config =
  ttl :: nat
  debounceTime :: nat
  cacheNotFound :: bool

text \<open>\<open>lookupFn(ids, fromWrite?)\<close> returns a record from id to entity.\<close>

type_synonym 'a lookupFn = "int list \<Rightarrow> bool \<Rightarrow> (int \<times> 'a obj) list"

text \<open>
  The variables of \<open>fetch\<close> that its two loops update. \<open>results\<close> is a \<open>Set<T>\<close> of
  objects, which JavaScript compares by reference: every \<open>add\<close> of a decoded or a
  looked-up object adds an element, so it is the list of the objects added.
  \<open>toCache\<close> and \<open>toCacheNotFound\<close> get one property per id of \<open>cacheMisses\<close>, a set,
  so each assignment adds an entry. The entries are kept in the order of the
  assignments; \<open>Object.entries\<close> lists integer keys in ascending order instead, which
  permutes writes to different keys and leaves the same store.
\<close>

record 'a fetch_vars =
  results :: "'a obj list"
  cacheMisses :: "int list"
  dontCache :: "int list"
  toCache :: "(int \<times> 'a obj) list"
  toCacheNotFound :: "(int \<times> 'a obj) list"

definition fetch_vars0 :: "'a fetch_vars" where
  "fetch_vars0 = \<lparr>results = [], cacheMisses = [], dontCache = [], toCache = [], toCacheNotFound = []\<rparr>"

text \<open>The body of \<open>for (const id of [...new Set(ids)])\<close>.\<close>

definition scan_step :: "(int \<rightharpoonup> 'a obj) \<Rightarrow> time \<Rightarrow> 'a fetch_vars \<Rightarrow> int \<Rightarrow> 'a fetch_vars" where
  "scan_step cache cacheDebounceCutoff st i =
     (case cache i of
        Some cached \<Rightarrow>
          if notFound cached then st
          else if debounce cached then
            (let st1 = (if date_gt (cachedAt cached) cacheDebounceCutoff
                        then st\<lparr>dontCache := set_add (dontCache st) i\<rparr> else st)
             in st1\<lparr>cacheMisses := set_add (cacheMisses st1) i\<rparr>)
          else st\<lparr>results := results st @ [cached]\<rparr>
      | None \<Rightarrow> st\<lparr>cacheMisses := set_add (cacheMisses st) i\<rparr>)"

text \<open>The body of \<open>for (const id of cacheMisses)\<close>.\<close>

definition gather_step ::
  "config \<Rightarrow> time \<Rightarrow> (int \<rightharpoonup> 'a obj) \<Rightarrow> 'a fetch_vars \<Rightarrow> int \<Rightarrow> 'a fetch_vars" where
  "gather_step cfg now dbResults st i =
     (case dbResults i of
        None \<Rightarrow>
          if cacheNotFound cfg
          then st\<lparr>toCacheNotFound := toCacheNotFound st @ [(i, tombstone now i)]\<rparr>
          else st
      | Some result \<Rightarrow>
          (let st1 = st\<lparr>results := results st @ [result]\<rparr>
           in if i \<notin> set (dontCache st1)
              then st1\<lparr>toCache := toCache st1 @ [(i, result\<lparr>cachedAt := Some now\<rparr>)]\<rparr>
              else st1))"

text \<open>\<open>for (const batch of lookupBatches) Object.assign(dbResults, await lookupFn([...batch]))\<close>;
  \<open>fromWrite\<close> is not passed.\<close>

definition lookupAll :: "'a lookupFn \<Rightarrow> int list list \<Rightarrow> (int \<rightharpoonup> 'a obj)" where
  "lookupAll lookupFn lookupBatches =
     foldl (\<lambda>dbResults batch. assign dbResults (lookupFn batch False)) Map.empty lookupBatches"

text \<open>What a call of \<open>fetch\<close> returns and does: the array returned, the set handed to
  \<open>appendFn\<close>, the store left, the key batches of the multi-gets, the calls of
  \<open>lookupFn\<close>, the two write tables and the write commands in the order issued.\<close>

record 'a fetch_result =
  fr_results :: "'a obj list"
  fr_set :: "'a obj list"
  fr_store :: "(int, 'a obj) redis"
  fr_mgets :: "int list list"
  fr_lookups :: "(int list \<times> bool) list"
  fr_toCache :: "(int \<times> 'a obj) list"
  fr_toCacheNotFound :: "(int \<times> 'a obj) list"
  fr_writes :: "(int, 'a obj) cmd list"

text \<open>
  \<open>fetch\<close> with its two batch sizes, 200 and 10000 in the source, as parameters;
  \<open>fetch\<close> itself follows. A call happens at one instant
  \<open>now\<close>: the store is read and written as it is then, and \<open>Date.now()\<close> and
  \<open>new Date()\<close> give the same time. \<open>appendFn\<close> changes the result set in place; it is a
  function from the set to the set it leaves.
\<close>

definition fetch_batched ::
  "nat \<Rightarrow> nat \<Rightarrow> config \<Rightarrow> 'a lookupFn \<Rightarrow> ('a obj list \<Rightarrow> 'a obj list) option \<Rightarrow>
   time \<Rightarrow> (int, 'a obj) redis \<Rightarrow> int list \<Rightarrow> 'a fetch_result" where
  "fetch_batched mgetSize lookupSize cfg lookupFn appendFn now s ids =
     (if ids = []
      then \<lparr>fr_results = [], fr_set = [], fr_store = s, fr_mgets = [], fr_lookups = [],
            fr_toCache = [], fr_toCacheNotFound = [], fr_writes = []\<rparr>
      else
        (let batches = chunk ids mgetSize;
             cacheResults = concat (map (\<lambda>batch. List.map_filter id (map (r_get now s) batch)) batches);
             cache = fromEntries (map (\<lambda>x. (idv x, x)) cacheResults);
             cacheDebounceCutoff = now - int (debounceTime cfg) * 1000;
             st1 = foldl (scan_step cache cacheDebounceCutoff) fetch_vars0 (new_Set ids);
             lookupBatches = (if cacheMisses st1 = [] then [] else chunk (cacheMisses st1) lookupSize);
             dbResults = lookupAll lookupFn lookupBatches;
             st2 = foldl (gather_step cfg now dbResults) st1 (cacheMisses st1);
             writes = map (\<lambda>(i, c). SET i c (Some (ttl cfg))) (toCache st2)
                      @ concat (map (\<lambda>(i, c). [SETNX i c, EXPIRE i (ttl cfg)]) (toCacheNotFound st2))
         in \<lparr>fr_results = (case appendFn of None \<Rightarrow> results st2 | Some f \<Rightarrow> f (results st2)),
             fr_set = results st2,
             fr_store = foldl (exec now) s writes,
             fr_mgets = batches,
             fr_lookups = map (\<lambda>batch. (batch, False)) lookupBatches,
             fr_toCache = toCache st2,
             fr_toCacheNotFound = toCacheNotFound st2,
             fr_writes = writes\<rparr>))"

definition fetch ::
  "config \<Rightarrow> 'a lookupFn \<Rightarrow> ('a obj list \<Rightarrow> 'a obj list) option \<Rightarrow>
   time \<Rightarrow> (int, 'a obj) redis \<Rightarrow> int list \<Rightarrow> 'a fetch_result" where
  "fetch = fetch_batched 200 10000"

text \<open>\<open>id: number | number[]\<close>, and \<open>Array.isArray(id) ? id : [id]\<close>.\<close>

datatype idarg = One int | Many "int list"

fun ids_of :: "idarg \<Rightarrow> int list" where
  "ids_of (One i) = [i]"
| "ids_of (Many is) = is"

record 'a write_result =
  wr_store :: "(int, 'a obj) redis"
  wr_lookups :: "(int list \<times> bool) list"
  wr_writes :: "(int, 'a obj) cmd list"

definition bust :: "config \<Rightarrow> time \<Rightarrow> (int, 'a obj) redis \<Rightarrow> idarg \<Rightarrow> 'a write_result" where
  "bust cfg now s ident =
     (let ids = ids_of ident;
          writes = map (\<lambda>i. SET i (marker i) (Some (debounceTime cfg))) ids
      in \<lparr>wr_store = foldl (exec now) s writes, wr_lookups = [], wr_writes = writes\<rparr>)"

text \<open>In \<open>refresh\<close> the object \<open>{ EX: ttl }\<close> is the second argument of \<open>Array.prototype.map\<close>
  (its \<open>thisArg\<close>); \<open>redis.packed.set\<close> is called with a key and a value only.\<close>

definition refresh ::
  "config \<Rightarrow> 'a lookupFn \<Rightarrow> time \<Rightarrow> (int, 'a obj) redis \<Rightarrow> idarg \<Rightarrow> 'a write_result" where
  "refresh cfg lookupFn now s ident =
     (let ids = ids_of ident;
          looked = lookupFn ids True;
          sets = map (\<lambda>(i, x). SET i (x\<lparr>cachedAt := Some now\<rparr>) None) looked;
          toRemove = filter (\<lambda>x. fromEntries looked x = None) ids;
          dels = map DEL toRemove
      in \<lparr>wr_store = foldl (exec now) s (sets @ dels),
          wr_lookups = [(ids, True)],
          wr_writes = sets @ dels\<rparr>)"

section \<open>createCachedObject\<close>

text \<open>
  \<open>createCachedArray\<close> returns the object \<open>{ fetch, bust, refresh }\<close>, and
  \<open>createCachedObject\<close> returns \<open>{ ...cachedArray, fetch }\<close> with a \<open>fetch\<close> of its own.
  \<open>toString\<close> of an integer is its decimal form, with a minus sign when it is negative
  (JavaScript writes an exponent only from \<open>1e21\<close> on).
\<close>

definition digit_char :: "nat \<Rightarrow> char" where
  "digit_char d = ''0123456789'' ! d"

fun digits :: "nat \<Rightarrow> string" where
  "digits n = (if n < 10 then [digit_char n] else digits (n div 10) @ [digit_char (n mod 10)])"

definition toString :: "int \<Rightarrow> string" where
  "toString i = (if i < 0 then CHR ''-'' # digits (nat (- i)) else digits (nat i))"

record ('f, 'b, 'r) cached =
  c_fetch :: 'f
  c_bust :: 'b
  c_refresh :: 'r

definition createCachedArray ::
  "config \<Rightarrow> 'a lookupFn \<Rightarrow> ('a obj list \<Rightarrow> 'a obj list) option \<Rightarrow>
   (time \<Rightarrow> (int, 'a obj) redis \<Rightarrow> int list \<Rightarrow> 'a fetch_result,
    time \<Rightarrow> (int, 'a obj) redis \<Rightarrow> idarg \<Rightarrow> 'a write_result,
    time \<Rightarrow> (int, 'a obj) redis \<Rightarrow> idarg \<Rightarrow> 'a write_result) cached" where
  "createCachedArray cfg lookupFn appendFn =
     \<lparr>c_fetch = fetch cfg lookupFn appendFn,
      c_bust = bust cfg,
      c_refresh = refresh cfg lookupFn\<rparr>"

text \<open>What the object view's \<open>fetch\<close> returns, and the call of the array view's
  \<open>fetch\<close> it made.\<close>

record 'a object_result =
  or_value :: "string \<rightharpoonup> 'a obj"
  or_call :: "'a fetch_result"

definition createCachedObject ::
  "config \<Rightarrow> 'a lookupFn \<Rightarrow> ('a obj list \<Rightarrow> 'a obj list) option \<Rightarrow>
   (time \<Rightarrow> (int, 'a obj) redis \<Rightarrow> int list \<Rightarrow> 'a object_result,
    time \<Rightarrow> (int, 'a obj) redis \<Rightarrow> idarg \<Rightarrow> 'a write_result,
    time \<Rightarrow> (int, 'a obj) redis \<Rightarrow> idarg \<Rightarrow> 'a write_result) cached" where
  "createCachedObject cfg lookupFn appendFn =
     (let cachedArray = createCachedArray cfg lookupFn appendFn
      in \<lparr>c_fetch = (\<lambda>now s ids.
            let r = c_fetch cachedArray now s ids
            in \<lparr>or_value = fromEntries (map (\<lambda>x. (toString (idv x), x)) (fr_results r)),
                or_call = r\<rparr>),
          c_bust = c_bust cachedArray,
          c_refresh = c_refresh cachedArray\<rparr>)"

section \<open>Notions used to state the properties\<close>

text \<open>How the first loop of \<open>fetch\<close> sorts an id, given the table \<open>cache\<close> of decoded
  entries: served from the cache, a miss, or a miss that must not be cached.\<close>

definition served :: "(int \<rightharpoonup> 'a obj) \<Rightarrow> int \<Rightarrow> 'a obj option" where
  "served cache i =
     (case cache i of
        None \<Rightarrow> None
      | Some x \<Rightarrow> if \<not> notFound x \<and> \<not> debounce x then Some x else None)"

definition is_miss :: "(int \<rightharpoonup> 'a obj) \<Rightarrow> int \<Rightarrow> bool" where
  "is_miss cache i = (case cache i of None \<Rightarrow> True | Some x \<Rightarrow> \<not> notFound x \<and> debounce x)"

definition held_back :: "(int \<rightharpoonup> 'a obj) \<Rightarrow> time \<Rightarrow> int \<Rightarrow> bool" where
  "held_back cache cutoff i =
     (case cache i of
        None \<Rightarrow> False
      | Some x \<Rightarrow> \<not> notFound x \<and> debounce x \<and> date_gt (cachedAt x) cutoff)"

text \<open>The table \<open>cache\<close> that \<open>fetch\<close> builds from the multi-gets, the entry the second
  loop puts into \<open>toCache\<close> for an id, and the one it puts into \<open>toCacheNotFound\<close>.\<close>

definition cache_of :: "time \<Rightarrow> (int, 'a obj) redis \<Rightarrow> int list \<Rightarrow> (int \<rightharpoonup> 'a obj)" where
  "cache_of now s ids =
     fromEntries (map (\<lambda>x. (idv x, x)) (List.map_filter id (map (r_get now s) ids)))"

definition cached_entry :: "time \<Rightarrow> (int \<rightharpoonup> 'a obj) \<Rightarrow> int list \<Rightarrow> int \<Rightarrow> (int \<times> 'a obj) option" where
  "cached_entry now db dc i =
     (case db i of
        None \<Rightarrow> None
      | Some r \<Rightarrow> if i \<notin> set dc then Some (i, r\<lparr>cachedAt := Some now\<rparr>) else None)"

definition tomb_entry :: "config \<Rightarrow> time \<Rightarrow> (int \<rightharpoonup> 'a obj) \<Rightarrow> int \<Rightarrow> (int \<times> 'a obj) option" where
  "tomb_entry cfg now db i =
     (case db i of
        None \<Rightarrow> if cacheNotFound cfg then Some (i, tombstone now i) else None
      | Some r \<Rightarrow> None)"

text \<open>A store is well keyed on some ids when the entry under each carries that id.\<close>

definition well_keyed :: "time \<Rightarrow> (int, 'a obj) redis \<Rightarrow> int list \<Rightarrow> bool" where
  "well_keyed now s ids = (\<forall>i \<in> set ids. \<forall>x. r_get now s i = Some x \<longrightarrow> idv x = i)"

text \<open>The lookup collaborator answers each id of a batch from one table, whatever the
  batch: the entity of the id when there is one, and nothing for any other id.\<close>

definition lookup_consistent :: "'a lookupFn \<Rightarrow> (int \<rightharpoonup> 'a obj) \<Rightarrow> bool" where
  "lookup_consistent lk tbl =
     (\<forall>batch i. fromEntries (lk batch False) i = (if i \<in> set batch then tbl i else None))"

text \<open>\<open>fetch\<close> in a single unchunked pass, for comparison: one multi-get holding every
  key and one lookup call holding every miss. A batch as long as the list of ids holds
  them all.\<close>

definition fetch_unchunked ::
  "config \<Rightarrow> 'a lookupFn \<Rightarrow> ('a obj list \<Rightarrow> 'a obj list) option \<Rightarrow>
   time \<Rightarrow> (int, 'a obj) redis \<Rightarrow> int list \<Rightarrow> 'a fetch_result" where
  "fetch_unchunked cfg lookupFn appendFn now s ids =
     fetch_batched (length ids) (length ids) cfg lookupFn appendFn now s ids"

text \<open>The lookup collaborator files every entity under the entity's own id, and its
  entities are plain ones: none has a truthy \<open>notFound\<close> or \<open>debounce\<close> property.\<close>

definition lookup_sane :: "'a lookupFn \<Rightarrow> bool" where
  "lookup_sane lk =
     (\<forall>batch i x. (i, x) \<in> set (lk batch False) \<longrightarrow> idv x = i \<and> \<not> notFound x \<and> \<not> debounce x)"

text \<open>An object without its \<open>cachedAt\<close> stamp.\<close>

definition unstamped :: "'a obj \<Rightarrow> 'a obj" where
  "unstamped x = x\<lparr>cachedAt := None\<rparr>"

text \<open>The mapping obtained from a result array by keying each entity by its stringified
  identifier: a string is sent to the entity that has it as stringified id, the last
  one in the array should several have it.\<close>

definition keyed_by_id :: "'a obj list \<Rightarrow> (string \<rightharpoonup> 'a obj)" where
  "keyed_by_id rs k =
     (case filter (\<lambda>x. toString (idv x) = k) rs of
        [] \<Rightarrow> None
      | x # xs \<Rightarrow> Some (last (x # xs)))"

text \<open>The value of a decimal digit, to read a stringified id back.\<close>

definition digit_val :: "char \<Rightarrow> nat" where
  "digit_val c = of_char c - 48"

section \<open>Properties\<close>

subsection \<open>Store lemmas\<close>

lemma live_expires_at: "0 < secs \<Longrightarrow> live now (Some (expires_at now secs))"
  by (simp add: live_def expires_at_def)

lemma r_get_set_same:
  "r_get now (r_set now s k v ex) k = (if ex = Some 0 then None else Some v)"
  by (cases ex) (auto simp: r_get_def r_set_def live_def expires_at_def)

lemma r_get_set_other: "k' \<noteq> k \<Longrightarrow> r_get now (r_set t s k v ex) k' = r_get now s k'"
  by (simp add: r_get_def r_set_def)

subsection \<open>C9\<close>

declare excess.simps [simp del]

lemma excess_small: "a < 2 ^ 53 \<Longrightarrow> excess a = 0"
  by (subst excess.simps) simp

lemma to_double_exact: "\<bar>n\<bar> \<le> 2 ^ 53 \<Longrightarrow> to_double n = n"
proof -
  assume le: "\<bar>n\<bar> \<le> 2 ^ 53"
  have sgn_back: "sgn n * int (nat \<bar>n\<bar>) = n"
    by (simp add: mult_sgn_abs)
  show ?thesis
  proof (cases "nat \<bar>n\<bar> < 2 ^ 53")
    case True
    then show ?thesis
      using sgn_back by (simp add: to_double_def Let_def excess_small)
  next
    case False
    with le have top: "nat \<bar>n\<bar> = 2 ^ 53" by (simp add: nat_le_iff not_less)
    have e: "excess (2 ^ 53) = Suc 0"
      by (subst excess.simps) (simp add: excess_small)
    show ?thesis
      using sgn_back unfolding to_double_def Let_def top e by simp
  qed
qed

lemma js_plus_exact: "\<bar>a + b\<bar> \<le> 2 ^ 53 \<Longrightarrow> js_plus a b = a + b"
  by (simp add: js_plus_def to_double_exact)

lemma to_double_zero [simp]: "to_double 0 = 0"
  by (simp add: to_double_exact)

lemma r_incrBy_live:
  "r_get now s k = Some v \<Longrightarrow> r_get now (r_incrBy now s k n) k = Some (v + n)"
  by (auto simp: r_get_def r_incrBy_def split: option.splits if_splits)

lemma r_incrBy_frame: "k' \<noteq> k \<Longrightarrow> r_incrBy now s k n k' = s k'"
  by (auto simp: r_incrBy_def split: option.splits)

lemma counter_get_frame:
  "k \<noteq> ident \<Longrightarrow> cr_store (counter_get secs fetchFn now s ident) k = s k"
  by (simp add: counter_get_def Let_def r_set_def)

text \<open>\<open>get\<close> on a hit: a counter that is cached and not 0 is returned as it is, the
  store is left alone and \<open>fetchFn\<close> is not called.\<close>

lemma counter_get_hit:
  assumes "r_get now s ident = Some c" and "c \<noteq> 0" and "\<bar>c\<bar> \<le> 2 ^ 53"
  shows "counter_get secs fetchFn now s ident = \<lparr>cr_value = c, cr_store = s, cr_fetched = []\<rparr>"
  using assms by (simp add: counter_get_def Let_def to_double_exact)

text \<open>\<open>get\<close> on a miss: with nothing cached, or 0, the value is what \<open>fetchFn\<close> gives
  (0 without a \<open>fetchFn\<close>), and it is stored with the ttl.\<close>

lemma counter_get_miss:
  assumes "r_get now s ident = None \<or> r_get now s ident = Some 0"
  shows "counter_get secs fetchFn now s ident
           = \<lparr>cr_value = (case fetchFn of None \<Rightarrow> 0 | Some f \<Rightarrow> f ident),
              cr_store = r_set now s ident (case fetchFn of None \<Rightarrow> 0 | Some f \<Rightarrow> f ident) (Some secs),
              cr_fetched = (case fetchFn of None \<Rightarrow> [] | Some f \<Rightarrow> [ident])\<rparr>"
  using assms by (auto simp: counter_get_def Let_def)

lemma incrementBy_hit:
  assumes "r_get now s ident = Some c" and "c \<noteq> 0" and "\<bar>c\<bar> \<le> 2 ^ 53"
      and "\<bar>c + amount_or_default amount\<bar> \<le> 2 ^ 53"
  shows "incrementBy secs fetchFn now s ident amount
           = \<lparr>cr_value = c + amount_or_default amount,
              cr_store = r_incrBy now s ident (amount_or_default amount),
              cr_fetched = []\<rparr>"
    and "r_get now (cr_store (incrementBy secs fetchFn now s ident amount)) ident
           = Some (c + amount_or_default amount)"
proof -
  show eq: "incrementBy secs fetchFn now s ident amount
           = \<lparr>cr_value = c + amount_or_default amount,
              cr_store = r_incrBy now s ident (amount_or_default amount),
              cr_fetched = []\<rparr>"
    using assms(4)
    by (simp add: incrementBy_def Let_def counter_get_hit [OF assms(1,2,3)] js_plus_exact)
  show "r_get now (cr_store (incrementBy secs fetchFn now s ident amount)) ident
           = Some (c + amount_or_default amount)"
    unfolding eq using assms(1) by (simp add: r_incrBy_live)
qed

lemma incrementBy_miss:
  assumes "0 < secs"
      and "r_get now s ident = None \<or> r_get now s ident = Some 0"
      and "\<bar>(case fetchFn of None \<Rightarrow> 0 | Some f \<Rightarrow> f ident) + amount_or_default amount\<bar> \<le> 2 ^ 53"
  shows "incrementBy secs fetchFn now s ident amount
           = \<lparr>cr_value = (case fetchFn of None \<Rightarrow> 0 | Some f \<Rightarrow> f ident) + amount_or_default amount,
              cr_store = r_incrBy now
                           (r_set now s ident (case fetchFn of None \<Rightarrow> 0 | Some f \<Rightarrow> f ident) (Some secs))
                           ident (amount_or_default amount),
              cr_fetched = (case fetchFn of None \<Rightarrow> [] | Some f \<Rightarrow> [ident])\<rparr>"
    and "r_get now (cr_store (incrementBy secs fetchFn now s ident amount)) ident
           = Some ((case fetchFn of None \<Rightarrow> 0 | Some f \<Rightarrow> f ident) + amount_or_default amount)"
proof -
  let ?count = "case fetchFn of None \<Rightarrow> 0 | Some f \<Rightarrow> f ident"
  show eq: "incrementBy secs fetchFn now s ident amount
           = \<lparr>cr_value = ?count + amount_or_default amount,
              cr_store = r_incrBy now (r_set now s ident ?count (Some secs)) ident (amount_or_default amount),
              cr_fetched = (case fetchFn of None \<Rightarrow> [] | Some f \<Rightarrow> [ident])\<rparr>"
    using assms(3)
    by (simp add: incrementBy_def Let_def counter_get_miss [OF assms(2)] js_plus_exact)
  have "r_get now (r_set now s ident ?count (Some secs)) ident = Some ?count"
    using assms(1) by (simp add: r_get_set_same)
  then show "r_get now (cr_store (incrementBy secs fetchFn now s ident amount)) ident
           = Some (?count + amount_or_default amount)"
    unfolding eq by (simp add: r_incrBy_live)
qed

lemma incrementBy_frame:
  "k \<noteq> ident \<Longrightarrow> cr_store (incrementBy secs fetchFn now s ident amount) k = s k"
  by (simp add: incrementBy_def Let_def r_incrBy_frame counter_get_frame)

text \<open>Just above \<open>2^53\<close> the doubles are the even integers; \<open>2^53 + 1\<close> lies halfway
  between two of them and is rounded to \<open>2^53\<close>, whose significand is even.\<close>

lemma excess_one: "2 ^ 53 \<le> a \<Longrightarrow> a < 2 ^ 54 \<Longrightarrow> excess a = Suc 0"
  by (subst excess.simps) (simp add: excess_small)

lemma to_double_tie: "to_double 9007199254740993 = 9007199254740992"
proof -
  have e: "excess 9007199254740993 = Suc 0"
    by (rule excess_one) simp_all
  have a: "nat \<bar>9007199254740993 :: int\<bar> = 9007199254740993"
    by simp
  show ?thesis
    unfolding to_double_def Let_def a e by simp
qed

text \<open>
  C9, as the code has it. Counters and amounts are JavaScript numbers, so a sum is
  exact while the values and the sum are integers of magnitude at most \<open>2^53\<close>. Within
  that range, and with a positive ttl: \<open>incrementBy(id, amount)\<close> first reads the
  counter through \<open>get\<close>. On a hit (a cached counter that is not 0) \<open>get\<close> returns the
  cached value, leaves the store alone and does not call \<open>fetchFn\<close>; on a miss (nothing
  cached, or 0) it returns what \<open>fetchFn\<close> gives (0 without a \<open>fetchFn\<close>) and stores that
  value with the ttl. Then \<open>incrementBy\<close> increments the stored integer by \<open>amount\<close>
  (by 1 when the argument is left out) with \<open>INCRBY\<close> and returns the value \<open>get\<close>
  returned plus \<open>amount\<close>, which is then also the stored integer. No other key
  changes.
\<close>

theorem incrementBy_reads_then_increments:
  assumes "0 < secs" and "\<bar>amount_or_default amount\<bar> \<le> 2 ^ 53"
  shows "(\<forall>c. r_get now s ident = Some c \<and> c \<noteq> 0 \<and> \<bar>c\<bar> \<le> 2 ^ 53 \<longrightarrow>
            counter_get secs fetchFn now s ident = \<lparr>cr_value = c, cr_store = s, cr_fetched = []\<rparr>
          \<and> (\<bar>c + amount_or_default amount\<bar> \<le> 2 ^ 53 \<longrightarrow>
                incrementBy secs fetchFn now s ident amount
                  = \<lparr>cr_value = c + amount_or_default amount,
                     cr_store = r_incrBy now s ident (amount_or_default amount),
                     cr_fetched = []\<rparr>
              \<and> r_get now (cr_store (incrementBy secs fetchFn now s ident amount)) ident
                  = Some (c + amount_or_default amount)))
       \<and> ((r_get now s ident = None \<or> r_get now s ident = Some 0)
            \<and> \<bar>case fetchFn of None \<Rightarrow> 0 | Some f \<Rightarrow> f ident\<bar> \<le> 2 ^ 53 \<longrightarrow>
            counter_get secs fetchFn now s ident
              = \<lparr>cr_value = (case fetchFn of None \<Rightarrow> 0 | Some f \<Rightarrow> f ident),
                 cr_store = r_set now s ident (case fetchFn of None \<Rightarrow> 0 | Some f \<Rightarrow> f ident) (Some secs),
                 cr_fetched = (case fetchFn of None \<Rightarrow> [] | Some f \<Rightarrow> [ident])\<rparr>
          \<and> r_get now (cr_store (counter_get secs fetchFn now s ident)) ident
              = Some (case fetchFn of None \<Rightarrow> 0 | Some f \<Rightarrow> f ident)
          \<and> (\<bar>(case fetchFn of None \<Rightarrow> 0 | Some f \<Rightarrow> f ident) + amount_or_default amount\<bar> \<le> 2 ^ 53 \<longrightarrow>
                incrementBy secs fetchFn now s ident amount
                  = \<lparr>cr_value = (case fetchFn of None \<Rightarrow> 0 | Some f \<Rightarrow> f ident) + amount_or_default amount,
                     cr_store = r_incrBy now
                                  (r_set now s ident (case fetchFn of None \<Rightarrow> 0 | Some f \<Rightarrow> f ident) (Some secs))
                                  ident (amount_or_default amount),
                     cr_fetched = (case fetchFn of None \<Rightarrow> [] | Some f \<Rightarrow> [ident])\<rparr>
              \<and> r_get now (cr_store (incrementBy secs fetchFn now s ident amount)) ident
                  = Some ((case fetchFn of None \<Rightarrow> 0 | Some f \<Rightarrow> f ident) + amount_or_default amount)))
       \<and> (\<forall>k. k \<noteq> ident \<longrightarrow> cr_store (incrementBy secs fetchFn now s ident amount) k = s k)"
proof -
  let ?count = "case fetchFn of None \<Rightarrow> 0 | Some f \<Rightarrow> f ident"
  have hit: "\<forall>c. r_get now s ident = Some c \<and> c \<noteq> 0 \<and> \<bar>c\<bar> \<le> 2 ^ 53 \<longrightarrow>
            counter_get secs fetchFn now s ident = \<lparr>cr_value = c, cr_store = s, cr_fetched = []\<rparr>
          \<and> (\<bar>c + amount_or_default amount\<bar> \<le> 2 ^ 53 \<longrightarrow>
                incrementBy secs fetchFn now s ident amount
                  = \<lparr>cr_value = c + amount_or_default amount,
                     cr_store = r_incrBy now s ident (amount_or_default amount),
                     cr_fetched = []\<rparr>
              \<and> r_get now (cr_store (incrementBy secs fetchFn now s ident amount)) ident
                  = Some (c + amount_or_default amount))"
    using counter_get_hit [of now s ident _ secs fetchFn]
          incrementBy_hit [of now s ident _ amount secs fetchFn]
    by blast
  have stored: "r_get now (r_set now s ident ?count (Some secs)) ident = Some ?count"
    using assms(1) by (simp add: r_get_set_same)
  have miss: "(r_get now s ident = None \<or> r_get now s ident = Some 0) \<and> \<bar>?count\<bar> \<le> 2 ^ 53 \<longrightarrow>
            counter_get secs fetchFn now s ident
              = \<lparr>cr_value = ?count, cr_store = r_set now s ident ?count (Some secs),
                 cr_fetched = (case fetchFn of None \<Rightarrow> [] | Some f \<Rightarrow> [ident])\<rparr>
          \<and> r_get now (cr_store (counter_get secs fetchFn now s ident)) ident = Some ?count
          \<and> (\<bar>?count + amount_or_default amount\<bar> \<le> 2 ^ 53 \<longrightarrow>
                incrementBy secs fetchFn now s ident amount
                  = \<lparr>cr_value = ?count + amount_or_default amount,
                     cr_store = r_incrBy now (r_set now s ident ?count (Some secs))
                                  ident (amount_or_default amount),
                     cr_fetched = (case fetchFn of None \<Rightarrow> [] | Some f \<Rightarrow> [ident])\<rparr>
              \<and> r_get now (cr_store (incrementBy secs fetchFn now s ident amount)) ident
                  = Some (?count + amount_or_default amount))"
  proof (intro impI conjI)
    assume "(r_get now s ident = None \<or> r_get now s ident = Some 0) \<and> \<bar>?count\<bar> \<le> 2 ^ 53"
    then have m: "r_get now s ident = None \<or> r_get now s ident = Some 0"
      by (rule conjunct1)
    show g: "counter_get secs fetchFn now s ident
              = \<lparr>cr_value = ?count, cr_store = r_set now s ident ?count (Some secs),
                 cr_fetched = (case fetchFn of None \<Rightarrow> [] | Some f \<Rightarrow> [ident])\<rparr>"
      using m by (rule counter_get_miss)
    show "r_get now (cr_store (counter_get secs fetchFn now s ident)) ident = Some ?count"
      unfolding g using stored by simp
    assume b: "\<bar>?count + amount_or_default amount\<bar> \<le> 2 ^ 53"
    show "incrementBy secs fetchFn now s ident amount
                  = \<lparr>cr_value = ?count + amount_or_default amount,
                     cr_store = r_incrBy now (r_set now s ident ?count (Some secs))
                                  ident (amount_or_default amount),
                     cr_fetched = (case fetchFn of None \<Rightarrow> [] | Some f \<Rightarrow> [ident])\<rparr>"
      using assms(1) m b by (rule incrementBy_miss)
    show "r_get now (cr_store (incrementBy secs fetchFn now s ident amount)) ident
                  = Some (?count + amount_or_default amount)"
      using assms(1) m b by (rule incrementBy_miss)
  qed
  have frame: "\<forall>k. k \<noteq> ident \<longrightarrow> cr_store (incrementBy secs fetchFn now s ident amount) k = s k"
    by (simp add: incrementBy_frame)
  show ?thesis
    by (intro conjI) (rule hit miss frame)+
qed

text \<open>
  Beyond that range C9 fails as stated: with \<open>2^53\<close> cached and \<open>amount\<close> 1, \<open>get\<close>
  returns \<open>2^53\<close> and \<open>incrementBy\<close> returns \<open>2^53\<close> again, the double nearest to the
  sum, while the stored integer becomes \<open>2^53 + 1\<close>.
\<close>

theorem incrementBy_reads_then_increments_counterexample:
  "cr_value (counter_get 3600 (None :: (nat \<Rightarrow> int) option) 0 [1 \<mapsto> (9007199254740992, None)] 1)
     = 9007199254740992
   \<and> cr_value (incrementBy 3600 (None :: (nat \<Rightarrow> int) option) 0 [1 \<mapsto> (9007199254740992, None)] 1 (Some 1))
     = 9007199254740992
   \<and> r_get 0 (cr_store (incrementBy 3600 (None :: (nat \<Rightarrow> int) option) 0
                 [1 \<mapsto> (9007199254740992, None)] 1 (Some 1))) 1
     = Some 9007199254740993"
proof -
  let ?s = "[1 \<mapsto> (9007199254740992, None)] :: (nat, int) redis"
  have g: "r_get 0 ?s 1 = Some 9007199254740992"
    by (simp add: r_get_def live_def)
  have d: "to_double 9007199254740992 = 9007199254740992"
    by (rule to_double_exact) simp
  have c: "counter_get 3600 (None :: (nat \<Rightarrow> int) option) 0 ?s 1
             = \<lparr>cr_value = 9007199254740992, cr_store = ?s, cr_fetched = []\<rparr>"
    unfolding counter_get_def Let_def g by (simp add: d)
  have v1: "cr_value (counter_get 3600 (None :: (nat \<Rightarrow> int) option) 0 ?s 1) = 9007199254740992"
    unfolding c by simp
  have v2: "cr_value (incrementBy 3600 (None :: (nat \<Rightarrow> int) option) 0 ?s 1 (Some 1)) = 9007199254740992"
    unfolding incrementBy_def Let_def c by (simp add: amount_or_default_def js_plus_def to_double_tie)
  have v3: "r_get 0 (cr_store (incrementBy 3600 (None :: (nat \<Rightarrow> int) option) 0 ?s 1 (Some 1))) 1
              = Some 9007199254740993"
    using r_incrBy_live [OF g, of 1]
    unfolding incrementBy_def Let_def c by (simp add: amount_or_default_def)
  show ?thesis
    by (intro conjI) (rule v1 v2 v3)+
qed

theorem incrementBy_reads_then_increments_witness:
  "incrementBy 3600 (Some (\<lambda>i::nat. 7)) 0 [1 \<mapsto> (100, Some 5000)] 1 (Some 5)
     = \<lparr>cr_value = 105, cr_store = r_incrBy 0 [1 \<mapsto> (100, Some 5000)] 1 5, cr_fetched = []\<rparr>
   \<and> r_get 0 (cr_store (incrementBy 3600 (Some (\<lambda>i::nat. 7)) 0 [1 \<mapsto> (100, Some 5000)] 1 (Some 5))) 1
     = Some 105
   \<and> counter_get 3600 (Some (\<lambda>i::nat. 7)) 0 [1 \<mapsto> (100, Some 5000)] 1
     = \<lparr>cr_value = 100, cr_store = [1 \<mapsto> (100, Some 5000)], cr_fetched = []\<rparr>
   \<and> counter_get 3600 (Some (\<lambda>i::nat. 7)) 0 Map.empty 1
     = \<lparr>cr_value = 7, cr_store = r_set 0 Map.empty 1 7 (Some 3600), cr_fetched = [1]\<rparr>
   \<and> cr_value (incrementBy 3600 (Some (\<lambda>i::nat. 7)) 0 Map.empty 1 None) = 8
   \<and> r_get 0 (cr_store (incrementBy 3600 (Some (\<lambda>i::nat. 7)) 0 Map.empty 1 None)) 1 = Some 8"
proof -
  have h: "0 < (3600::nat)" by simp
  let ?f = "Some (\<lambda>i::nat. (7::int))"
  let ?s = "[1 \<mapsto> (100, Some 5000)] :: (nat, int) redis"
  have a5: "\<bar>amount_or_default (Some 5)\<bar> \<le> 2 ^ 53"
    by (simp add: amount_or_default_def)
  have a1: "\<bar>amount_or_default None\<bar> \<le> 2 ^ 53"
    by (simp add: amount_or_default_def)
  note hit = incrementBy_reads_then_increments
               [OF h a5, where now = 0 and s = ?s and ident = 1 and fetchFn = ?f,
                THEN conjunct1, rule_format, of 100]
  have c: "r_get 0 ?s 1 = Some 100 \<and> (100::int) \<noteq> 0 \<and> \<bar>100::int\<bar> \<le> 2 ^ 53"
    by (simp add: r_get_def live_def)
  have b: "\<bar>(100::int) + amount_or_default (Some 5)\<bar> \<le> 2 ^ 53"
    by (simp add: amount_or_default_def)
  note hit0 = hit [OF c, THEN conjunct1]
  note hit1 = hit [OF c, THEN conjunct2, rule_format, OF b]
  note miss = incrementBy_reads_then_increments
               [OF h a1, where now = 0 and s = "Map.empty :: (nat, int) redis" and ident = 1
                  and fetchFn = ?f,
                THEN conjunct2, THEN conjunct1, rule_format]
  have m: "(r_get 0 (Map.empty :: (nat, int) redis) 1 = None
             \<or> r_get 0 (Map.empty :: (nat, int) redis) 1 = Some 0)
           \<and> \<bar>case ?f of None \<Rightarrow> 0 | Some f \<Rightarrow> f (1::nat)\<bar> \<le> 2 ^ 53"
    by (simp add: r_get_def)
  have b2: "\<bar>(case ?f of None \<Rightarrow> 0 | Some f \<Rightarrow> f (1::nat)) + amount_or_default None\<bar> \<le> 2 ^ 53"
    by (simp add: amount_or_default_def)
  note miss1 = miss [OF m]
  note miss2 = miss1 [THEN conjunct2, THEN conjunct2, rule_format, OF b2]
  have v1: "incrementBy 3600 ?f 0 ?s 1 (Some 5)
     = \<lparr>cr_value = 105, cr_store = r_incrBy 0 ?s 1 5, cr_fetched = []\<rparr>"
    using hit1 [THEN conjunct1] by (simp add: amount_or_default_def)
  have v2: "r_get 0 (cr_store (incrementBy 3600 ?f 0 ?s 1 (Some 5))) 1 = Some 105"
    using hit1 [THEN conjunct2] by (simp add: amount_or_default_def)
  have v0: "counter_get 3600 ?f 0 ?s 1 = \<lparr>cr_value = 100, cr_store = ?s, cr_fetched = []\<rparr>"
    by (rule hit0)
  have v3: "counter_get 3600 ?f 0 Map.empty 1
     = \<lparr>cr_value = 7, cr_store = r_set 0 Map.empty 1 7 (Some 3600), cr_fetched = [1]\<rparr>"
    using miss1 [THEN conjunct1] by simp
  have v4: "cr_value (incrementBy 3600 ?f 0 Map.empty 1 None) = 8"
    using miss2 [THEN conjunct1] by (simp add: amount_or_default_def)
  have v5: "r_get 0 (cr_store (incrementBy 3600 ?f 0 Map.empty 1 None)) 1 = Some 8"
    using miss2 [THEN conjunct2] by (simp add: amount_or_default_def)
  show ?thesis
    by (intro conjI) (rule v1 v2 v0 v3 v4 v5)+
qed

subsection \<open>C7\<close>

lemma foldl_r_del: "foldl r_del s keys k = (if k \<in> set keys then None else s k)"
  by (induction keys arbitrary: s) (auto simp: r_del_def)

lemma bustCacheTag_one:
  "sMembers now s (tagKey T) = Inr keys \<Longrightarrow>
   bustCacheTag now s (OneTag T)
     = (None, r_del (foldl r_del s keys) (tagKey T),
        SMEMBERS (tagKey T) # map DEL keys @ [DEL (tagKey T)])"
  by (simp add: bustCacheTag_def)

lemma queryCache_miss_queries:
  "s (cacheKeyOf key version (hashify q)) = None \<Longrightarrow>
   rr_queries (queryCache db hashify key version now s q opts) = [q]"
  by (auto simp: queryCache_def Let_def packed_get_def r_get_def split: option.splits prod.splits)

text \<open>
  C7. \<open>bustCacheTag(T)\<close> reads the members of the set under \<open>tag:T\<close>, deletes every
  member key and then the set itself, in that order. Every member key and the set are
  absent afterwards and no other key changes; in particular two keys filed under \<open>T\<close>
  are both absent, and a \<open>queryCache\<close> lookup whose cache key is one of them runs its
  query against the database.
\<close>

theorem bustCacheTag_deletes_members_then_set:
  assumes "sMembers now s (tagKey T) = Inr keys"
  shows "fst (bustCacheTag now s (OneTag T)) = None
       \<and> snd (snd (bustCacheTag now s (OneTag T)))
           = SMEMBERS (tagKey T) # map DEL keys @ [DEL (tagKey T)]
       \<and> (\<forall>k \<in> set keys. fst (snd (bustCacheTag now s (OneTag T))) k = None)
       \<and> fst (snd (bustCacheTag now s (OneTag T))) (tagKey T) = None
       \<and> (\<forall>k. k \<notin> set keys \<and> k \<noteq> tagKey T
              \<longrightarrow> fst (snd (bustCacheTag now s (OneTag T))) k = s k)
       \<and> (\<forall>db hashify key version q opts now'.
              cacheKeyOf key version (hashify q) \<in> set keys
              \<longrightarrow> rr_queries (queryCache db hashify key version now'
                                (fst (snd (bustCacheTag now s (OneTag T)))) q opts) = [q])"
proof -
  let ?s' = "r_del (foldl r_del s keys) (tagKey T)"
  have eq: "bustCacheTag now s (OneTag T)
              = (None, ?s', SMEMBERS (tagKey T) # map DEL keys @ [DEL (tagKey T)])"
    using assms by (rule bustCacheTag_one)
  have gone: "\<forall>k \<in> set keys. ?s' k = None"
    by (simp add: r_del_def foldl_r_del)
  have tg: "?s' (tagKey T) = None"
    by (simp add: r_del_def)
  have frame: "\<forall>k. k \<notin> set keys \<and> k \<noteq> tagKey T \<longrightarrow> ?s' k = s k"
    by (simp add: r_del_def foldl_r_del)
  have again: "\<forall>db hashify key version q opts now'.
              cacheKeyOf key version (hashify q) \<in> set keys
              \<longrightarrow> rr_queries (queryCache db hashify key version now' ?s' q opts) = [q]"
    using gone by (auto intro!: queryCache_miss_queries)
  show ?thesis
    unfolding eq fst_conv snd_conv using gone tg frame again by blast
qed

lemma sAdd_member:
  "sAdd now s k m = Inr s1 \<Longrightarrow> \<exists>ms. sMembers now s1 k = Inr ms \<and> m \<in> set ms"
  by (auto simp: sAdd_def sMembers_def r_get_def live_def split: option.splits if_splits rval.splits)

lemma sAdd_keeps_members:
  "sAdd now s k m = Inr s1 \<Longrightarrow> sMembers now s k = Inr ms \<Longrightarrow>
   \<exists>ms'. sMembers now s1 k = Inr ms' \<and> set ms \<subseteq> set ms'"
  by (auto simp: sAdd_def sMembers_def r_get_def live_def split: option.splits if_splits rval.splits)

text \<open>Two keys filed under the same tag by \<open>tagCacheKey\<close> are members of its set,
  so busting the tag removes both.\<close>

lemma tagged_keys_busted:
  assumes "tagCacheKey now s0 K1 (OneTag T) = (None, s1)"
      and "tagCacheKey now s1 K2 (OneTag T) = (None, s2)"
  shows "fst (bustCacheTag now s2 (OneTag T)) = None
       \<and> fst (snd (bustCacheTag now s2 (OneTag T))) K1 = None
       \<and> fst (snd (bustCacheTag now s2 (OneTag T))) K2 = None"
proof -
  from assms(1) have a1: "sAdd now s0 (tagKey T) K1 = Inr s1"
    by (auto simp: tagCacheKey_def split: sum.splits)
  from assms(2) have a2: "sAdd now s1 (tagKey T) K2 = Inr s2"
    by (auto simp: tagCacheKey_def split: sum.splits)
  from sAdd_member [OF a1] obtain ms1 where m1: "sMembers now s1 (tagKey T) = Inr ms1" "K1 \<in> set ms1"
    by blast
  from sAdd_member [OF a2] obtain ms2 where m2: "sMembers now s2 (tagKey T) = Inr ms2" "K2 \<in> set ms2"
    by blast
  from sAdd_keeps_members [OF a2 m1(1)] m2(1) have sub: "set ms1 \<subseteq> set ms2"
    by auto
  have eq: "bustCacheTag now s2 (OneTag T)
              = (None, r_del (foldl r_del s2 ms2) (tagKey T),
                 SMEMBERS (tagKey T) # map DEL ms2 @ [DEL (tagKey T)])"
    using m2(1) by (rule bustCacheTag_one)
  show ?thesis
    unfolding eq fst_conv snd_conv using m1(2) m2(2) sub
    by (auto simp: r_del_def foldl_r_del)
qed

theorem bustCacheTag_deletes_members_then_set_witness:
  "sMembers 0 [tagKey ''T'' \<mapsto> (Members [''q:1'', ''q:2''], None),
               ''q:1'' \<mapsto> (Packed [1::nat], None),
               ''q:2'' \<mapsto> (Packed [2], Some 60000)] (tagKey ''T'') = Inr [''q:1'', ''q:2'']
   \<and> snd (snd (bustCacheTag 0 [tagKey ''T'' \<mapsto> (Members [''q:1'', ''q:2''], None),
               ''q:1'' \<mapsto> (Packed [1::nat], None),
               ''q:2'' \<mapsto> (Packed [2], Some 60000)] (OneTag ''T'')))
       = [SMEMBERS ''tag:T'', DEL ''q:1'', DEL ''q:2'', DEL ''tag:T'']
   \<and> fst (snd (bustCacheTag 0 [tagKey ''T'' \<mapsto> (Members [''q:1'', ''q:2''], None),
               ''q:1'' \<mapsto> (Packed [1::nat], None),
               ''q:2'' \<mapsto> (Packed [2], Some 60000)] (OneTag ''T''))) ''q:1'' = None
   \<and> fst (snd (bustCacheTag 0 [tagKey ''T'' \<mapsto> (Members [''q:1'', ''q:2''], None),
               ''q:1'' \<mapsto> (Packed [1::nat], None),
               ''q:2'' \<mapsto> (Packed [2], Some 60000)] (OneTag ''T''))) ''q:2'' = None
   \<and> rr_queries (queryCache (\<lambda>q::nat. [q]) (\<lambda>q. ''2'') ''q'' None 1
          (fst (snd (bustCacheTag 0 [tagKey ''T'' \<mapsto> (Members [''q:1'', ''q:2''], None),
               ''q:1'' \<mapsto> (Packed [1::nat], None),
               ''q:2'' \<mapsto> (Packed [2], Some 60000)] (OneTag ''T'')))) 9 None) = [9]"
proof -
  let ?s = "[tagKey ''T'' \<mapsto> (Members [''q:1'', ''q:2''], None),
               ''q:1'' \<mapsto> (Packed [1::nat], None),
               ''q:2'' \<mapsto> (Packed [2], Some 60000)]"
  have h: "sMembers 0 ?s (tagKey ''T'') = Inr [''q:1'', ''q:2'']"
    by (simp add: sMembers_def r_get_def live_def tagKey_def)
  note th = bustCacheTag_deletes_members_then_set [OF h]
  have ck: "cacheKeyOf ''q'' None ''2'' \<in> set [''q:1'', ''q:2'']"
    by (simp add: cacheKeyOf_def List.map_filter_simps)
  from th have a: "snd (snd (bustCacheTag 0 ?s (OneTag ''T'')))
       = SMEMBERS (tagKey ''T'') # map DEL [''q:1'', ''q:2''] @ [DEL (tagKey ''T'')]"
    by blast
  have m1: "''q:1'' \<in> set [''q:1'', ''q:2'']" and m2: "''q:2'' \<in> set [''q:1'', ''q:2'']"
    by simp_all
  from th m1 have b: "fst (snd (bustCacheTag 0 ?s (OneTag ''T''))) ''q:1'' = None"
    by blast
  from th m2 have c: "fst (snd (bustCacheTag 0 ?s (OneTag ''T''))) ''q:2'' = None"
    by blast
  note every = th [THEN conjunct2, THEN conjunct2, THEN conjunct2, THEN conjunct2, THEN conjunct2]
  from every [rule_format, where hashify = "\<lambda>q. ''2''" and key = "''q''" and version = None
                and q = 9 and db = "\<lambda>q::nat. [q]" and now' = 1 and opts = None, OF ck]
  have d: "rr_queries (queryCache (\<lambda>q::nat. [q]) (\<lambda>q. ''2'') ''q'' None 1
          (fst (snd (bustCacheTag 0 ?s (OneTag ''T'')))) 9 None) = [9]" .
  from a have a': "snd (snd (bustCacheTag 0 ?s (OneTag ''T'')))
       = [SMEMBERS ''tag:T'', DEL ''q:1'', DEL ''q:2'', DEL ''tag:T'']"
    by (simp add: tagKey_def)
  from h a' b c d show ?thesis by blast
qed

subsection \<open>C6\<close>

lemma sAdd_keeps_packed:
  "sAdd now s k m = Inr s' \<Longrightarrow> s k' = Some (Packed rows, ex) \<Longrightarrow> live now ex \<Longrightarrow>
   s' k' = Some (Packed rows, ex)"
  by (auto simp: sAdd_def split: option.splits if_splits rval.splits)

lemma tagLoop_keeps_packed:
  "tagLoop now key ts s = (e, s') \<Longrightarrow> s k' = Some (Packed rows, ex) \<Longrightarrow> live now ex \<Longrightarrow>
   s' k' = Some (Packed rows, ex)"
proof (induction ts arbitrary: s)
  case Nil
  then show ?case by simp
next
  case (Cons t ts)
  show ?case
  proof (cases "sAdd now s (tagKey t) key")
    case (Inl err)
    with Cons.prems show ?thesis by simp
  next
    case (Inr s1)
    with Cons.prems have "tagLoop now key ts s1 = (e, s')" by simp
    moreover have "s1 k' = Some (Packed rows, ex)"
      using sAdd_keeps_packed [OF Inr Cons.prems(2) Cons.prems(3)] .
    ultimately show ?thesis using Cons.IH Cons.prems(3) by blast
  qed
qed

lemma queryCache_miss_store:
  assumes caching: "map_option opt_ttl options \<noteq> Some 0"
      and miss: "r_get now s (cacheKeyOf key version (hashify q)) = None"
  shows "rr_store (queryCache db hashify key version now s q options)
           (cacheKeyOf key version (hashify q))
         = Some (Packed (db q), map_option (expires_at now) (map_option opt_ttl options))"
proof -
  let ?ck = "cacheKeyOf key version (hashify q)"
  let ?ex = "map_option (expires_at now) (map_option opt_ttl options)"
  let ?s1 = "r_set now s ?ck (Packed (db q)) (map_option opt_ttl options)"
  have s1: "?s1 ?ck = Some (Packed (db q), ?ex)"
    by (simp add: r_set_def)
  have lv: "live now ?ex"
    using caching by (cases options) (auto simp: live_def expires_at_def)
  have pg: "packed_get now s ?ck = Inr None"
    using miss by (simp add: packed_get_def)
  show ?thesis
  proof (cases options)
    case None
    then show ?thesis using pg s1 by (simp add: queryCache_def Let_def)
  next
    case (Some opts)
    obtain e s2 where tl: "tagCacheKey now ?s1 ?ck (opt_tag opts) = (e, s2)"
      by (cases "tagCacheKey now ?s1 ?ck (opt_tag opts)") auto
    then have "tagLoop now ?ck (tags_of (opt_tag opts)) ?s1 = (e, s2)"
      by (simp add: tagCacheKey_def)
    then have "s2 ?ck = Some (Packed (db q), ?ex)"
      using s1 lv by (rule tagLoop_keeps_packed)
    then show ?thesis
      using Some pg s1 tl caching
      by (cases e) (auto simp: queryCache_def Let_def)
  qed
qed

lemma queryCache_unreadable_queries:
  "r_get now s (cacheKeyOf key version (hashify q)) = None \<Longrightarrow>
   rr_queries (queryCache db hashify key version now s q opts) = [q]"
  by (auto simp: queryCache_def Let_def packed_get_def split: option.splits prod.splits)

lemma queryCache_hit:
  "map_option opt_ttl options \<noteq> Some 0 \<Longrightarrow>
   r_get now s (cacheKeyOf key version (hashify q)) = Some (Packed rows) \<Longrightarrow>
   queryCache db hashify key version now s q options
     = \<lparr>rr_value = Inr rows, rr_store = s, rr_queries = []\<rparr>"
  by (simp add: queryCache_def Let_def packed_get_def)

text \<open>
  C6. When the query returns no rows and the call uses the cache (its \<open>ttl\<close> is not
  \<open>0\<close>) and misses, the call runs the query once and leaves the empty array under the
  cache key, readable until it expires. Every call with the same cache key that finds
  the empty array returns it, runs no query and writes nothing; a call that finds no
  entry runs its query: the empty array and no entry are different cache states.
\<close>

theorem queryCache_serves_cached_empty_result:
  assumes empty: "db q = []"
      and caching: "map_option opt_ttl options \<noteq> Some 0"
      and miss: "r_get now s (cacheKeyOf key version (hashify q)) = None"
  shows "rr_queries (queryCache db hashify key version now s q options) = [q]
       \<and> rr_store (queryCache db hashify key version now s q options)
            (cacheKeyOf key version (hashify q))
           = Some (Packed [], map_option (expires_at now) (map_option opt_ttl options))
       \<and> (\<forall>now2. live now2 (map_option (expires_at now) (map_option opt_ttl options)) \<longrightarrow>
            r_get now2 (rr_store (queryCache db hashify key version now s q options))
              (cacheKeyOf key version (hashify q)) = Some (Packed []))
       \<and> (\<forall>db2 now2 s2 q2 options2.
            map_option opt_ttl options2 \<noteq> Some 0
            \<and> cacheKeyOf key version (hashify q2) = cacheKeyOf key version (hashify q)
            \<and> r_get now2 s2 (cacheKeyOf key version (hashify q)) = Some (Packed [])
            \<longrightarrow> queryCache db2 hashify key version now2 s2 q2 options2
                  = \<lparr>rr_value = Inr [], rr_store = s2, rr_queries = []\<rparr>)
       \<and> (\<forall>db2 now2 s2 q2 options2.
            cacheKeyOf key version (hashify q2) = cacheKeyOf key version (hashify q)
            \<and> r_get now2 s2 (cacheKeyOf key version (hashify q)) = None
            \<longrightarrow> rr_queries (queryCache db2 hashify key version now2 s2 q2 options2) = [q2])"
proof -
  let ?ck = "cacheKeyOf key version (hashify q)"
  let ?r = "queryCache db hashify key version now s q options"
  have a: "rr_queries ?r = [q]"
    using miss by (rule queryCache_unreadable_queries)
  have b: "rr_store ?r ?ck
             = Some (Packed [], map_option (expires_at now) (map_option opt_ttl options))"
    using queryCache_miss_store [where db = db and hashify = hashify and q = q, OF caching miss] empty
    by simp
  have c: "\<forall>now2. live now2 (map_option (expires_at now) (map_option opt_ttl options)) \<longrightarrow>
            r_get now2 (rr_store ?r) ?ck = Some (Packed [])"
    using b by (simp add: r_get_def)
  have d: "\<forall>db2 now2 s2 q2 options2.
            map_option opt_ttl options2 \<noteq> Some 0
            \<and> cacheKeyOf key version (hashify q2) = ?ck
            \<and> r_get now2 s2 ?ck = Some (Packed [])
            \<longrightarrow> queryCache db2 hashify key version now2 s2 q2 options2
                  = \<lparr>rr_value = Inr [], rr_store = s2, rr_queries = []\<rparr>"
    by (metis queryCache_hit)
  have e: "\<forall>db2 now2 s2 q2 options2.
            cacheKeyOf key version (hashify q2) = ?ck
            \<and> r_get now2 s2 ?ck = None
            \<longrightarrow> rr_queries (queryCache db2 hashify key version now2 s2 q2 options2) = [q2]"
    by (metis queryCache_unreadable_queries)
  from a b c d e show ?thesis by blast
qed

theorem queryCache_serves_cached_empty_result_witness:
  "rr_queries (queryCache (\<lambda>q::nat. ([]::nat list)) (\<lambda>q. ''h'') ''k'' None 0 Map.empty 1 None) = [1]
   \<and> queryCache (\<lambda>q::nat. [7::nat]) (\<lambda>q. ''h'') ''k'' None 5
        (rr_store (queryCache (\<lambda>q::nat. ([]::nat list)) (\<lambda>q. ''h'') ''k'' None 0 Map.empty 1 None))
        1 None
       = \<lparr>rr_value = Inr [],
          rr_store = rr_store (queryCache (\<lambda>q::nat. ([]::nat list)) (\<lambda>q. ''h'') ''k'' None 0 Map.empty 1 None),
          rr_queries = []\<rparr>"
proof -
  have e: "(\<lambda>q::nat. ([]::nat list)) 1 = []" by simp
  have t: "map_option opt_ttl (None :: cachedQueryOptions option) \<noteq> Some 0" by simp
  have m: "r_get 0 (Map.empty :: nat qstore) (cacheKeyOf ''k'' None ((\<lambda>q::nat. ''h'') 1)) = None"
    by (simp add: r_get_def)
  note th = queryCache_serves_cached_empty_result
              [where db = "\<lambda>q::nat. ([]::nat list)" and q = 1 and options = None and now = 0
                 and s = Map.empty and key = "''k''" and version = None
                 and hashify = "\<lambda>q::nat. ''h''", OF e t m]
  have lv: "live 5 (map_option (expires_at 0) (map_option opt_ttl (None :: cachedQueryOptions option)))"
    by (simp add: live_def)
  from th have q1: "rr_queries (queryCache (\<lambda>q::nat. ([]::nat list)) (\<lambda>q. ''h'') ''k'' None 0 Map.empty 1 None) = [1]"
    by blast
  from th lv have held: "r_get 5 (rr_store (queryCache (\<lambda>q::nat. ([]::nat list)) (\<lambda>q. ''h'') ''k'' None 0 Map.empty 1 None))
                 (cacheKeyOf ''k'' None ''h'') = Some (Packed [])"
    by blast
  from th have hit: "\<And>db2 now2 s2 q2 options2.
            map_option opt_ttl options2 \<noteq> Some 0 \<Longrightarrow>
            cacheKeyOf ''k'' None ''h'' = cacheKeyOf ''k'' None ''h'' \<Longrightarrow>
            r_get now2 s2 (cacheKeyOf ''k'' None ''h'') = Some (Packed []) \<Longrightarrow>
            queryCache db2 (\<lambda>q::nat. ''h'') ''k'' None now2 s2 q2 options2
                  = \<lparr>rr_value = Inr [], rr_store = s2, rr_queries = []\<rparr>"
    by blast
  from hit [OF t refl held] q1 show ?thesis by blast
qed

subsection \<open>Lists, sets and records\<close>

declare chunk.simps [simp del]

lemma chunk_Nil [simp]: "chunk [] n = []"
  by (simp add: chunk.simps)

lemma chunk_zero [simp]: "chunk xs 0 = []"
  by (simp add: chunk.simps)

lemma chunk_step: "0 < n \<Longrightarrow> xs \<noteq> [] \<Longrightarrow> chunk xs n = take n xs # chunk (drop n xs) n"
  by (subst chunk.simps) simp

lemma concat_chunk: "0 < n \<Longrightarrow> concat (chunk xs n) = xs"
proof (induction xs n rule: chunk.induct)
  case (1 xs n)
  show ?case
  proof (cases "xs = []")
    case True
    then show ?thesis by simp
  next
    case False
    with 1 show ?thesis by (simp add: chunk_step)
  qed
qed

lemma chunk_length_le: "b \<in> set (chunk xs n) \<Longrightarrow> length b \<le> n"
proof (induction xs n rule: chunk.induct)
  case (1 xs n)
  show ?case
  proof (cases "n = 0 \<or> xs = []")
    case True
    with 1(2) show ?thesis by (auto simp: chunk.simps)
  next
    case False
    with 1 show ?thesis by (auto simp: chunk_step)
  qed
qed

lemma chunk_all: "xs \<noteq> [] \<Longrightarrow> length xs \<le> n \<Longrightarrow> chunk xs n = [xs]"
  by (cases "n = 0") (auto simp: chunk_step)

lemma set_chunk: "0 < n \<Longrightarrow> \<Union> (set ` set (chunk xs n)) = set xs"
  using concat_chunk [of n xs] by (metis set_concat)

lemma assign_snoc: "assign m (es @ [(k, v)]) = (assign m es)(k \<mapsto> v)"
  by (simp add: assign_def)

lemma assign_Nil [simp]: "assign m [] = m"
  by (simp add: assign_def)

lemma assign_Cons: "assign m ((k, v) # es) = assign (m(k \<mapsto> v)) es"
  by (simp add: assign_def)

lemma assign_notin: "k \<notin> fst ` set es \<Longrightarrow> assign m es k = m k"
  by (induction es arbitrary: m) (auto simp: assign_Cons)

lemma assign_in: "k \<in> fst ` set es \<Longrightarrow> \<exists>v. (k, v) \<in> set es \<and> assign m es k = Some v"
proof (induction es rule: rev_induct)
  case Nil
  then show ?case by simp
next
  case (snoc e es)
  obtain k' v' where e: "e = (k', v')" by (cases e)
  show ?case
  proof (cases "k' = k")
    case True
    then show ?thesis by (auto simp: e assign_snoc)
  next
    case False
    with snoc.prems have "k \<in> fst ` set es" by (auto simp: e)
    from snoc.IH [OF this] False show ?thesis by (auto simp: e assign_snoc)
  qed
qed

lemma assign_Some: "assign m es k = Some v \<Longrightarrow> (k, v) \<in> set es \<or> m k = Some v"
  using assign_in [of k es m] assign_notin [of k es m] by (cases "k \<in> fst ` set es") auto

lemma set_set_add [simp]: "set (set_add xs x) = insert x (set xs)"
  by (auto simp: set_add_def)

lemma distinct_set_add [simp]: "distinct (set_add xs x) = distinct xs"
  by (auto simp: set_add_def)

lemma foldl_set_add: "set (foldl set_add acc xs) = set acc \<union> set xs"
  by (induction xs arbitrary: acc) auto

lemma foldl_set_add_distinct: "distinct (foldl set_add acc xs) = distinct acc"
  by (induction xs arbitrary: acc) auto

lemma set_new_Set [simp]: "set (new_Set xs) = set xs"
  by (simp add: new_Set_def foldl_set_add)

lemma distinct_new_Set [simp]: "distinct (new_Set xs)"
  by (simp add: new_Set_def foldl_set_add_distinct)

lemma new_Set_Nil_iff [simp]: "new_Set xs = [] \<longleftrightarrow> xs = []"
  by (metis set_new_Set set_empty)

subsection \<open>The two loops of fetch\<close>

lemma scan_step_simps:
  "results (scan_step cache c st i) = results st @ (case served cache i of None \<Rightarrow> [] | Some x \<Rightarrow> [x])"
  "cacheMisses (scan_step cache c st i) = (if is_miss cache i then set_add (cacheMisses st) i else cacheMisses st)"
  "dontCache (scan_step cache c st i) = (if held_back cache c i then set_add (dontCache st) i else dontCache st)"
  "toCache (scan_step cache c st i) = toCache st"
  "toCacheNotFound (scan_step cache c st i) = toCacheNotFound st"
  by (auto simp: scan_step_def served_def is_miss_def held_back_def Let_def split: option.splits)

lemma scan_results:
  "results (foldl (scan_step cache c) st xs) = results st @ List.map_filter (served cache) xs"
  by (induction xs arbitrary: st)
     (auto simp: scan_step_simps List.map_filter_simps split: option.splits)

lemma scan_toCache:
  "toCache (foldl (scan_step cache c) st xs) = toCache st"
  "toCacheNotFound (foldl (scan_step cache c) st xs) = toCacheNotFound st"
  by (induction xs arbitrary: st) (auto simp: scan_step_simps)

lemma scan_cacheMisses:
  "distinct xs \<Longrightarrow> set (cacheMisses st) \<inter> set xs = {} \<Longrightarrow>
   cacheMisses (foldl (scan_step cache c) st xs) = cacheMisses st @ filter (is_miss cache) xs"
proof (induction xs arbitrary: st)
  case Nil
  then show ?case by simp
next
  case (Cons x xs)
  have "set (cacheMisses (scan_step cache c st x)) \<inter> set xs = {}"
    using Cons.prems by (auto simp: scan_step_simps)
  with Cons.IH [of "scan_step cache c st x"] Cons.prems
  show ?case by (auto simp: scan_step_simps set_add_def)
qed

lemma scan_dontCache:
  "distinct xs \<Longrightarrow> set (dontCache st) \<inter> set xs = {} \<Longrightarrow>
   dontCache (foldl (scan_step cache c) st xs) = dontCache st @ filter (held_back cache c) xs"
proof (induction xs arbitrary: st)
  case Nil
  then show ?case by simp
next
  case (Cons x xs)
  have "set (dontCache (scan_step cache c st x)) \<inter> set xs = {}"
    using Cons.prems by (auto simp: scan_step_simps)
  with Cons.IH [of "scan_step cache c st x"] Cons.prems
  show ?case by (auto simp: scan_step_simps set_add_def)
qed

lemma gather_step_simps:
  "results (gather_step cfg now db st i) = results st @ (case db i of None \<Rightarrow> [] | Some r \<Rightarrow> [r])"
  "cacheMisses (gather_step cfg now db st i) = cacheMisses st"
  "dontCache (gather_step cfg now db st i) = dontCache st"
  "toCache (gather_step cfg now db st i)
     = toCache st @ (case db i of None \<Rightarrow> []
                     | Some r \<Rightarrow> if i \<notin> set (dontCache st) then [(i, r\<lparr>cachedAt := Some now\<rparr>)] else [])"
  "toCacheNotFound (gather_step cfg now db st i)
     = toCacheNotFound st @ (case db i of None \<Rightarrow> if cacheNotFound cfg then [(i, tombstone now i)] else []
                             | Some r \<Rightarrow> [])"
  by (auto simp: gather_step_def Let_def split: option.splits)

lemma gather_fixed:
  "cacheMisses (foldl (gather_step cfg now db) st ms) = cacheMisses st"
  "dontCache (foldl (gather_step cfg now db) st ms) = dontCache st"
  by (induction ms arbitrary: st) (auto simp: gather_step_simps)

lemma gather_results:
  "results (foldl (gather_step cfg now db) st ms) = results st @ List.map_filter db ms"
  by (induction ms arbitrary: st)
     (auto simp: gather_step_simps List.map_filter_simps split: option.splits)

lemma gather_toCache:
  "toCache (foldl (gather_step cfg now db) st ms)
     = toCache st @ List.map_filter (cached_entry now db (dontCache st)) ms"
  by (induction ms arbitrary: st)
     (auto simp: gather_step_simps List.map_filter_simps cached_entry_def split: option.splits)

lemma gather_toCacheNotFound:
  "toCacheNotFound (foldl (gather_step cfg now db) st ms)
     = toCacheNotFound st @ List.map_filter (tomb_entry cfg now db) ms"
  by (induction ms arbitrary: st)
     (auto simp: gather_step_simps List.map_filter_simps tomb_entry_def split: option.splits)

subsection \<open>Running write commands\<close>

lemma map_filter_concat:
  "List.map_filter f (concat xss) = concat (map (List.map_filter f) xss)"
  by (induction xss) (auto simp: List.map_filter_def)

lemma mgets_chunked:
  "0 < m \<Longrightarrow>
   concat (map (\<lambda>batch. List.map_filter id (map (r_get now s) batch)) (chunk ids m))
     = List.map_filter id (map (r_get now s) ids)"
proof -
  assume m: "0 < m"
  have "concat (map (\<lambda>batch. List.map_filter id (map (r_get now s) batch)) bs)
          = List.map_filter id (map (r_get now s) (concat bs))" for bs
    by (induction bs) (auto simp: List.map_filter_def)
  then show ?thesis using m by (simp add: concat_chunk)
qed

lemma exec_sets:
  "foldl (exec now) s (map (\<lambda>(i, c). SET i c ex) tc) k
     = (case assign Map.empty tc k of
          None \<Rightarrow> s k
        | Some c \<Rightarrow> Some (c, map_option (expires_at now) ex))"
proof (induction tc rule: rev_induct)
  case Nil
  then show ?case by simp
next
  case (snoc e tc)
  obtain i c where e: "e = (i, c)" by (cases e)
  show ?case using snoc.IH by (simp add: e assign_snoc r_set_def)
qed

lemma exec_pair_other:
  "k \<noteq> i \<Longrightarrow> exec now (exec now s (SETNX i c)) (EXPIRE i t) k = s k"
  by (auto simp: r_setNX_def r_expire_def split: option.splits)

lemma exec_pair_same:
  "exec now (exec now s (SETNX i c)) (EXPIRE i t) i
     = Some (case r_get now s i of None \<Rightarrow> c | Some v \<Rightarrow> v, Some (expires_at now t))"
  by (auto simp: r_setNX_def r_expire_def r_get_def live_def split: option.splits)

lemma exec_pairs_other:
  "k \<notin> fst ` set nf \<Longrightarrow>
   foldl (exec now) s (concat (map (\<lambda>(i, c). [SETNX i c, EXPIRE i t]) nf)) k = s k"
proof (induction nf arbitrary: s)
  case Nil
  then show ?case by simp
next
  case (Cons e nf)
  obtain i c where e: "e = (i, c)" by (cases e)
  from Cons.prems have ne: "k \<noteq> i" and rest: "k \<notin> fst ` set nf" by (auto simp: e)
  show ?case
    using Cons.IH [OF rest, of "exec now (exec now s (SETNX i c)) (EXPIRE i t)"]
          exec_pair_other [OF ne, of now s c t]
    by (simp add: e)
qed

lemma exec_pairs_in:
  "distinct (map fst nf) \<Longrightarrow> (k, c) \<in> set nf \<Longrightarrow>
   foldl (exec now) s (concat (map (\<lambda>(i, c). [SETNX i c, EXPIRE i t]) nf)) k
     = Some (case r_get now s k of None \<Rightarrow> c | Some v \<Rightarrow> v, Some (expires_at now t))"
proof (induction nf arbitrary: s)
  case Nil
  then show ?case by simp
next
  case (Cons e nf)
  obtain i c' where e: "e = (i, c')" by (cases e)
  let ?s1 = "exec now (exec now s (SETNX i c')) (EXPIRE i t)"
  show ?case
  proof (cases "k = i")
    case True
    with Cons.prems have c: "c' = c" and notin: "k \<notin> fst ` set nf"
      by (auto simp: e image_iff)
    have "foldl (exec now) ?s1 (concat (map (\<lambda>(i, c). [SETNX i c, EXPIRE i t]) nf)) k = ?s1 k"
      using notin by (rule exec_pairs_other)
    also have "?s1 k = Some (case r_get now s k of None \<Rightarrow> c | Some v \<Rightarrow> v, Some (expires_at now t))"
      unfolding True c by (rule exec_pair_same)
    finally show ?thesis by (simp add: e)
  next
    case False
    with Cons.prems have d: "distinct (map fst nf)" and mem: "(k, c) \<in> set nf"
      by (auto simp: e)
    have same: "?s1 k = s k" using False by (rule exec_pair_other)
    then have "r_get now ?s1 k = r_get now s k" by (simp add: r_get_def)
    with Cons.IH [OF d mem, of ?s1] show ?thesis by (simp add: e)
  qed
qed

lemma foldl_exec_append:
  "foldl (exec now) s (xs @ ys) = foldl (exec now) (foldl (exec now) s xs) ys"
  by simp

subsection \<open>fetch in closed form\<close>

lemma scan_from0:
  "results (foldl (scan_step cache c) fetch_vars0 (new_Set ids)) = List.map_filter (served cache) (new_Set ids)"
  "cacheMisses (foldl (scan_step cache c) fetch_vars0 (new_Set ids)) = filter (is_miss cache) (new_Set ids)"
  "dontCache (foldl (scan_step cache c) fetch_vars0 (new_Set ids)) = filter (held_back cache c) (new_Set ids)"
  "toCache (foldl (scan_step cache c) fetch_vars0 (new_Set ids)) = []"
  "toCacheNotFound (foldl (scan_step cache c) fetch_vars0 (new_Set ids)) = []"
  by (simp_all add: scan_results scan_cacheMisses scan_dontCache scan_toCache fetch_vars0_def)

lemma fetch_batched_closed:
  assumes "ids \<noteq> []" and "0 < m"
  shows "fetch_batched m n cfg lk ap now s ids =
     (let cache = cache_of now s ids;
          cutoff = now - int (debounceTime cfg) * 1000;
          ms = filter (is_miss cache) (new_Set ids);
          dc = filter (held_back cache cutoff) (new_Set ids);
          lb = (if ms = [] then [] else chunk ms n);
          db = lookupAll lk lb;
          rs = List.map_filter (served cache) (new_Set ids) @ List.map_filter db ms;
          tc = List.map_filter (cached_entry now db dc) ms;
          nf = List.map_filter (tomb_entry cfg now db) ms;
          writes = map (\<lambda>(i, c). SET i c (Some (ttl cfg))) tc
                   @ concat (map (\<lambda>(i, c). [SETNX i c, EXPIRE i (ttl cfg)]) nf)
      in \<lparr>fr_results = (case ap of None \<Rightarrow> rs | Some f \<Rightarrow> f rs),
          fr_set = rs,
          fr_store = foldl (exec now) s writes,
          fr_mgets = chunk ids m,
          fr_lookups = map (\<lambda>batch. (batch, False)) lb,
          fr_toCache = tc,
          fr_toCacheNotFound = nf,
          fr_writes = writes\<rparr>)"
  using assms
  by (cases ap)
     (simp_all add: fetch_batched_def Let_def mgets_chunked cache_of_def [symmetric]
        scan_from0 gather_results gather_toCache gather_toCacheNotFound gather_fixed
        del: foldl_append)

lemma map_fst_map_filter:
  "(\<And>i p. f i = Some p \<Longrightarrow> fst p = i) \<Longrightarrow>
   map fst (List.map_filter f ms) = filter (\<lambda>i. f i \<noteq> None) ms"
  by (induction ms) (auto simp: List.map_filter_simps split: option.splits)

lemma set_map_filter: "set (List.map_filter f xs) = {y. \<exists>x \<in> set xs. f x = Some y}"
  by (induction xs) (auto simp: List.map_filter_simps split: option.splits)

lemma keys_cached_entry:
  "map fst (List.map_filter (cached_entry now db dc) ms)
     = filter (\<lambda>i. cached_entry now db dc i \<noteq> None) ms"
  by (rule map_fst_map_filter) (auto simp: cached_entry_def split: option.splits if_splits)

lemma keys_tomb_entry:
  "map fst (List.map_filter (tomb_entry cfg now db) ms)
     = filter (\<lambda>i. tomb_entry cfg now db i \<noteq> None) ms"
  by (rule map_fst_map_filter) (auto simp: tomb_entry_def split: option.splits if_splits)

lemma cached_tomb_disjoint:
  "cached_entry now db dc i = Some p \<Longrightarrow> tomb_entry cfg now' db i = Some q \<Longrightarrow> False"
  by (auto simp: cached_entry_def tomb_entry_def split: option.splits if_splits)

lemma distinct_misses: "distinct (filter (is_miss cache) (new_Set ids))"
  by simp

lemma assign_distinct:
  "distinct (map fst es) \<Longrightarrow> (k, v) \<in> set es \<Longrightarrow> assign m es k = Some v"
proof -
  assume d: "distinct (map fst es)" and mem: "(k, v) \<in> set es"
  then have "k \<in> fst ` set es" by force
  from assign_in [OF this, of m] obtain v' where v': "(k, v') \<in> set es" "assign m es k = Some v'"
    by blast
  from d mem v'(1) have "v' = v" by (metis eq_key_imp_eq_value)
  with v'(2) show ?thesis by simp
qed

text \<open>Facts about the tables and writes of any call.\<close>

lemma fetch_batched_tables:
  assumes "0 < m"
  shows "distinct (map fst (fr_toCache (fetch_batched m n cfg lk ap now s ids)))"
    and "distinct (map fst (fr_toCacheNotFound (fetch_batched m n cfg lk ap now s ids)))"
    and "fst ` set (fr_toCache (fetch_batched m n cfg lk ap now s ids))
           \<inter> fst ` set (fr_toCacheNotFound (fetch_batched m n cfg lk ap now s ids)) = {}"
proof -
  let ?r = "fetch_batched m n cfg lk ap now s ids"
  show "distinct (map fst (fr_toCache ?r))"
  proof (cases "ids = []")
    case True
    then show ?thesis by (simp add: fetch_batched_def)
  next
    case False
    then show ?thesis using assms
      by (simp add: fetch_batched_closed Let_def keys_cached_entry)
  qed
  show "distinct (map fst (fr_toCacheNotFound ?r))"
  proof (cases "ids = []")
    case True
    then show ?thesis by (simp add: fetch_batched_def)
  next
    case False
    then show ?thesis using assms
      by (simp add: fetch_batched_closed Let_def keys_tomb_entry)
  qed
  show "fst ` set (fr_toCache ?r) \<inter> fst ` set (fr_toCacheNotFound ?r) = {}"
  proof (cases "ids = []")
    case True
    then show ?thesis by (simp add: fetch_batched_def)
  next
    case False
    have "set (map fst (fr_toCache ?r)) \<inter> set (map fst (fr_toCacheNotFound ?r)) = {}"
      using False assms
      by (auto simp: fetch_batched_closed Let_def keys_cached_entry keys_tomb_entry
            dest: cached_tomb_disjoint)
    then show ?thesis by simp
  qed
qed

lemma fetch_batched_writes:
  "fr_writes (fetch_batched m n cfg lk ap now s ids)
     = map (\<lambda>(i, c). SET i c (Some (ttl cfg))) (fr_toCache (fetch_batched m n cfg lk ap now s ids))
       @ concat (map (\<lambda>(i, c). [SETNX i c, EXPIRE i (ttl cfg)])
                  (fr_toCacheNotFound (fetch_batched m n cfg lk ap now s ids)))"
  by (simp add: fetch_batched_def Let_def)

lemma fetch_batched_store:
  "fr_store (fetch_batched m n cfg lk ap now s ids)
     = foldl (exec now) s (fr_writes (fetch_batched m n cfg lk ap now s ids))"
  by (simp add: fetch_batched_def Let_def)

text \<open>What running the writes of a call does to one key of any store.\<close>

lemma writes_on_toCache:
  assumes "0 < m" and "(i, c) \<in> set (fr_toCache (fetch_batched m n cfg lk ap now s ids))"
  shows "foldl (exec now) s' (fr_writes (fetch_batched m n cfg lk ap now s ids)) i
           = Some (c, Some (expires_at now (ttl cfg)))"
proof -
  let ?r = "fetch_batched m n cfg lk ap now s ids"
  from assms(2) have "i \<in> fst ` set (fr_toCache ?r)" by force
  with fetch_batched_tables(3) [OF assms(1), of n cfg lk ap now s ids]
  have notin: "i \<notin> fst ` set (fr_toCacheNotFound ?r)" by blast
  have "assign Map.empty (fr_toCache ?r) i = Some c"
    using fetch_batched_tables(1) [OF assms(1)] assms(2) by (rule assign_distinct)
  then show ?thesis
    by (simp add: fetch_batched_writes exec_pairs_other [OF notin] exec_sets)
qed

lemma writes_on_toCacheNotFound:
  assumes "0 < m" and "(i, c) \<in> set (fr_toCacheNotFound (fetch_batched m n cfg lk ap now s ids))"
  shows "foldl (exec now) s' (fr_writes (fetch_batched m n cfg lk ap now s ids)) i
           = Some (case r_get now s' i of None \<Rightarrow> c | Some v \<Rightarrow> v,
                   Some (expires_at now (ttl cfg)))"
proof -
  let ?r = "fetch_batched m n cfg lk ap now s ids"
  let ?s1 = "foldl (exec now) s' (map (\<lambda>(i, c). SET i c (Some (ttl cfg))) (fr_toCache ?r))"
  from assms(2) have "i \<in> fst ` set (fr_toCacheNotFound ?r)" by force
  with fetch_batched_tables(3) [OF assms(1), of n cfg lk ap now s ids]
  have notin: "i \<notin> fst ` set (fr_toCache ?r)" by blast
  have same: "?s1 i = s' i"
    by (simp add: exec_sets assign_notin [OF notin])
  then have g: "r_get now ?s1 i = r_get now s' i" by (simp add: r_get_def)
  have "foldl (exec now) ?s1 (concat (map (\<lambda>(i, c). [SETNX i c, EXPIRE i (ttl cfg)]) (fr_toCacheNotFound ?r))) i
          = Some (case r_get now ?s1 i of None \<Rightarrow> c | Some v \<Rightarrow> v, Some (expires_at now (ttl cfg)))"
    using fetch_batched_tables(2) [OF assms(1)] assms(2) by (rule exec_pairs_in)
  then show ?thesis
    by (simp add: fetch_batched_writes g)
qed

lemma writes_elsewhere:
  assumes "i \<notin> fst ` set (fr_toCache (fetch_batched m n cfg lk ap now s ids))"
      and "i \<notin> fst ` set (fr_toCacheNotFound (fetch_batched m n cfg lk ap now s ids))"
  shows "foldl (exec now) s' (fr_writes (fetch_batched m n cfg lk ap now s ids)) i = s' i"
  by (simp add: fetch_batched_writes exec_pairs_other [OF assms(2)] exec_sets assign_notin [OF assms(1)])

subsection \<open>C5 and C4\<close>

lemma tomb_entry_Some: "tomb_entry cfg now db j = Some (i, c) \<Longrightarrow> j = i \<and> c = tombstone now i"
  by (auto simp: tomb_entry_def split: option.splits if_splits)

lemma toCacheNotFound_tombstone:
  "(i, c) \<in> set (fr_toCacheNotFound (fetch_batched m n cfg lk ap now s ids)) \<Longrightarrow>
   c = tombstone now i"
  by (cases "ids = []")
     (auto simp: fetch_batched_def Let_def scan_toCache gather_toCacheNotFound fetch_vars0_def
           set_map_filter dest: tomb_entry_Some)

lemma pair_in_writes:
  assumes "(i, c) \<in> set nf"
  shows "\<exists>pre post. sets @ concat (map (\<lambda>(i, c). [SETNX i c, EXPIRE i t]) nf)
                       = pre @ [SETNX i c, EXPIRE i t] @ post"
proof -
  from assms obtain xs ys where nf: "nf = xs @ (i, c) # ys"
    by (auto dest: split_list)
  have "sets @ concat (map (\<lambda>(i, c). [SETNX i c, EXPIRE i t]) nf)
          = (sets @ concat (map (\<lambda>(i, c). [SETNX i c, EXPIRE i t]) xs))
            @ [SETNX i c, EXPIRE i t] @ concat (map (\<lambda>(i, c). [SETNX i c, EXPIRE i t]) ys)"
    by (simp add: nf)
  then show ?thesis by blast
qed

text \<open>
  C5. For every id that \<open>fetch\<close> puts into \<open>toCacheNotFound\<close>, the writes hold
  \<open>SETNX\<close> of the tombstone directly followed by \<open>EXPIRE\<close> with the configured ttl, whatever
  the store holds. Run on any store, as it may be when the writes arrive: where the key
  holds a live entry (another caller wrote it after the multi-get), \<open>SETNX\<close> leaves the
  value and \<open>EXPIRE\<close> still sets its expiry to the ttl; where it holds nothing, the
  tombstone is written and expires after the ttl.
\<close>

theorem fetch_expire_follows_every_setNX:
  assumes "(i, c) \<in> set (fr_toCacheNotFound (fetch cfg lk ap now s ids))"
  shows "c = tombstone now i
       \<and> (\<exists>pre post. fr_writes (fetch cfg lk ap now s ids)
                        = pre @ [SETNX i c, EXPIRE i (ttl cfg)] @ post)
       \<and> (\<forall>s' v ex. s' i = Some (v, ex) \<and> live now ex \<longrightarrow>
            foldl (exec now) s' (fr_writes (fetch cfg lk ap now s ids)) i
              = Some (v, Some (expires_at now (ttl cfg))))
       \<and> (\<forall>s'. r_get now s' i = None \<longrightarrow>
            foldl (exec now) s' (fr_writes (fetch cfg lk ap now s ids)) i
              = Some (c, Some (expires_at now (ttl cfg))))
       \<and> fr_store (fetch cfg lk ap now s ids)
            = foldl (exec now) s (fr_writes (fetch cfg lk ap now s ids))"
proof -
  let ?r = "fetch cfg lk ap now s ids"
  have mem: "(i, c) \<in> set (fr_toCacheNotFound (fetch_batched 200 10000 cfg lk ap now s ids))"
    using assms by (simp add: fetch_def)
  have a: "c = tombstone now i"
    using mem by (rule toCacheNotFound_tombstone)
  have b: "\<exists>pre post. fr_writes ?r = pre @ [SETNX i c, EXPIRE i (ttl cfg)] @ post"
    unfolding fetch_def fetch_batched_writes using mem by (rule pair_in_writes)
  have eff: "foldl (exec now) s' (fr_writes ?r) i
               = Some (case r_get now s' i of None \<Rightarrow> c | Some v \<Rightarrow> v,
                       Some (expires_at now (ttl cfg)))" for s'
    unfolding fetch_def using writes_on_toCacheNotFound [OF _ mem] by simp
  have c: "\<forall>s' v ex. s' i = Some (v, ex) \<and> live now ex \<longrightarrow>
            foldl (exec now) s' (fr_writes ?r) i = Some (v, Some (expires_at now (ttl cfg)))"
    by (simp add: eff r_get_def)
  have d: "\<forall>s'. r_get now s' i = None \<longrightarrow>
            foldl (exec now) s' (fr_writes ?r) i = Some (c, Some (expires_at now (ttl cfg)))"
    by (simp add: eff)
  have e: "fr_store ?r = foldl (exec now) s (fr_writes ?r)"
    by (simp add: fetch_def fetch_batched_store)
  from a b c d e show ?thesis by blast
qed

theorem fetch_expire_follows_every_setNX_witness:
  "(1, tombstone 0 1)
     \<in> set (fr_toCacheNotFound (fetch \<lparr>ttl = 60, debounceTime = 10, cacheNotFound = True\<rparr>
               ((\<lambda>ids fw. []) :: string lookupFn) None 0 Map.empty [1]))
   \<and> foldl (exec 0)
        [1 \<mapsto> (\<lparr>idv = 1, rest = Some ''a'', notFound = False, debounce = False,
                 cachedAt = Some 0\<rparr>, Some 5000)]
        (fr_writes (fetch \<lparr>ttl = 60, debounceTime = 10, cacheNotFound = True\<rparr>
               (\<lambda>ids fw. []) None 0 Map.empty [1])) 1
       = Some (\<lparr>idv = 1, rest = Some ''a'', notFound = False, debounce = False,
                cachedAt = Some 0\<rparr>, Some 60000)"
proof -
  let ?cfg = "\<lparr>ttl = 60, debounceTime = 10, cacheNotFound = True\<rparr>"
  let ?lk = "(\<lambda>ids fw. []) :: string lookupFn"
  let ?A = "\<lparr>idv = 1, rest = Some ''a'', notFound = False, debounce = False, cachedAt = Some 0\<rparr>"
  have h: "(1, tombstone 0 1) \<in> set (fr_toCacheNotFound (fetch ?cfg ?lk None 0 Map.empty [1]))"
    by (simp add: fetch_def fetch_batched_def Let_def chunk.simps new_Set_def set_add_def
          fromEntries_def List.map_filter_simps r_get_def fetch_vars0_def scan_step_def
          lookupAll_def gather_step_def)
  note th = fetch_expire_follows_every_setNX [OF h]
  note kept = th [THEN conjunct2, THEN conjunct2, THEN conjunct1, rule_format,
                  of "[1 \<mapsto> (?A, Some 5000)]" ?A "Some 5000"]
  have pre: "[1 \<mapsto> (?A, Some 5000)] 1 = Some (?A, Some 5000) \<and> live 0 (Some 5000)"
    by (simp add: live_def)
  from kept [OF pre] h show ?thesis
    by (simp add: expires_at_def)
qed

lemma assign_map_snd:
  "assign Map.empty (map (\<lambda>(i, x). (i, f x)) es) k = map_option f (assign Map.empty es k)"
  by (induction es rule: rev_induct) (auto simp: assign_snoc split: prod.splits)

lemma exec_dels: "foldl (exec now) s (map DEL ks) k = (if k \<in> set ks then None else s k)"
  by (induction ks arbitrary: s) (auto simp: r_del_def)

lemma refresh_store_at:
  assumes "fromEntries (lookupFn (ids_of ident) True) i = Some x"
  shows "wr_store (refresh cfg lookupFn now s ident) i = Some (x\<lparr>cachedAt := Some now\<rparr>, None)"
proof -
  let ?looked = "lookupFn (ids_of ident) True"
  let ?sets = "map (\<lambda>(i, x). SET i (x\<lparr>cachedAt := Some now\<rparr>) None) ?looked"
  let ?rm = "filter (\<lambda>x. fromEntries ?looked x = None) (ids_of ident)"
  have sets: "?sets = map (\<lambda>(i, c). SET i c None)
                        (map (\<lambda>(i, x). (i, x\<lparr>cachedAt := Some now\<rparr>)) ?looked)"
    by (simp add: case_prod_unfold)
  have "foldl (exec now) s ?sets i = Some (x\<lparr>cachedAt := Some now\<rparr>, None)"
    unfolding sets using assms
    by (simp add: exec_sets assign_map_snd fromEntries_def del: map_map)
  moreover have "i \<notin> set ?rm" using assms by simp
  ultimately show ?thesis
    by (simp add: refresh_def Let_def exec_dels)
qed

text \<open>
  C4. Every entry that \<open>refresh\<close> writes for an id of the lookup's record is stored
  with no expiry: its \<open>SET\<close> commands carry no \<open>EX\<close>. The \<open>SET\<close> commands of \<open>fetch\<close>
  carry the configured ttl, and every entry of \<open>toCache\<close> is stored to expire after it.
\<close>

theorem refresh_stores_without_expiry:
  "(\<forall>i x. fromEntries (lookupFn (ids_of ident) True) i = Some x \<longrightarrow>
      wr_store (refresh cfg lookupFn now s ident) i = Some (x\<lparr>cachedAt := Some now\<rparr>, None))
   \<and> (\<forall>i c ex. SET i c ex \<in> set (wr_writes (refresh cfg lookupFn now s ident)) \<longrightarrow> ex = None)
   \<and> (\<forall>i c ex. SET i c ex \<in> set (fr_writes (fetch cfg lookupFn ap now s ids)) \<longrightarrow>
        ex = Some (ttl cfg))
   \<and> (\<forall>i c. (i, c) \<in> set (fr_toCache (fetch cfg lookupFn ap now s ids)) \<longrightarrow>
        fr_store (fetch cfg lookupFn ap now s ids) i = Some (c, Some (expires_at now (ttl cfg))))"
proof -
  have a: "\<forall>i x. fromEntries (lookupFn (ids_of ident) True) i = Some x \<longrightarrow>
      wr_store (refresh cfg lookupFn now s ident) i = Some (x\<lparr>cachedAt := Some now\<rparr>, None)"
    by (simp add: refresh_store_at)
  have b: "\<forall>i c ex. SET i c ex \<in> set (wr_writes (refresh cfg lookupFn now s ident)) \<longrightarrow> ex = None"
    by (auto simp: refresh_def Let_def)
  have c: "\<forall>i c ex. SET i c ex \<in> set (fr_writes (fetch cfg lookupFn ap now s ids)) \<longrightarrow>
        ex = Some (ttl cfg)"
    by (auto simp: fetch_def fetch_batched_writes)
  have d: "\<forall>i c. (i, c) \<in> set (fr_toCache (fetch cfg lookupFn ap now s ids)) \<longrightarrow>
        fr_store (fetch cfg lookupFn ap now s ids) i = Some (c, Some (expires_at now (ttl cfg)))"
  proof (intro allI impI)
    fix i c
    assume "(i, c) \<in> set (fr_toCache (fetch cfg lookupFn ap now s ids))"
    then have m: "(i, c) \<in> set (fr_toCache (fetch_batched 200 10000 cfg lookupFn ap now s ids))"
      by (simp add: fetch_def)
    show "fr_store (fetch cfg lookupFn ap now s ids) i = Some (c, Some (expires_at now (ttl cfg)))"
      unfolding fetch_def fetch_batched_store using writes_on_toCache [OF _ m] by simp
  qed
  from a b c d show ?thesis by blast
qed

theorem refresh_stores_without_expiry_witness:
  "wr_store (refresh \<lparr>ttl = 60, debounceTime = 10, cacheNotFound = True\<rparr>
       (\<lambda>ids fw. [(1, \<lparr>idv = 1, rest = Some ''a'', notFound = False, debounce = False,
                        cachedAt = None\<rparr>)]) 0 Map.empty (One 1)) 1
     = Some (\<lparr>idv = 1, rest = Some ''a'', notFound = False, debounce = False,
              cachedAt = Some 0\<rparr>, None)
   \<and> fr_store (fetch \<lparr>ttl = 60, debounceTime = 10, cacheNotFound = True\<rparr>
       (\<lambda>ids fw. [(1, \<lparr>idv = 1, rest = Some ''a'', notFound = False, debounce = False,
                        cachedAt = None\<rparr>)]) None 0 Map.empty [1]) 1
     = Some (\<lparr>idv = 1, rest = Some ''a'', notFound = False, debounce = False,
              cachedAt = Some 0\<rparr>, Some 60000)"
proof -
  let ?cfg = "\<lparr>ttl = 60, debounceTime = 10, cacheNotFound = True\<rparr>"
  let ?A = "\<lparr>idv = 1, rest = Some ''a'', notFound = False, debounce = False, cachedAt = None\<rparr>"
  let ?lk = "(\<lambda>ids fw. [(1, ?A)]) :: string lookupFn"
  note th = refresh_stores_without_expiry
              [where lookupFn = ?lk and cfg = ?cfg and now = 0 and s = Map.empty
                 and ident = "One 1" and ids = "[1]" and ap = None]
  have h1: "fromEntries (?lk (ids_of (One 1)) True) 1 = Some ?A"
    by (simp add: fromEntries_def assign_def)
  have h2: "(1, ?A\<lparr>cachedAt := Some 0\<rparr>) \<in> set (fr_toCache (fetch ?cfg ?lk None 0 Map.empty [1]))"
    by (simp add: fetch_def fetch_batched_def Let_def chunk.simps new_Set_def set_add_def
          fromEntries_def assign_def List.map_filter_simps r_get_def fetch_vars0_def scan_step_def
          lookupAll_def gather_step_def)
  from th [THEN conjunct1, rule_format, OF h1]
       th [THEN conjunct2, THEN conjunct2, THEN conjunct2, rule_format, OF h2]
  show ?thesis by (simp add: expires_at_def)
qed

subsection \<open>One id\<close>

lemma new_Set_single [simp]: "new_Set [x] = [x]"
  by (simp add: new_Set_def set_add_def)

lemma chunk_single: "0 < n \<Longrightarrow> chunk [x] n = [[x]]"
  by (simp add: chunk_all)

lemma cache_of_single:
  "cache_of now s [X] i
     = (case r_get now s X of
          None \<Rightarrow> None
        | Some e \<Rightarrow> if idv e = i then Some e else None)"
  by (auto simp: cache_of_def fromEntries_def assign_def List.map_filter_simps split: option.splits)

lemma lookupAll_single: "lookupAll lk [b] = fromEntries (lk b False)"
  by (simp add: lookupAll_def fromEntries_def)

lemma fromEntries_notin: "k \<notin> fst ` set es \<Longrightarrow> fromEntries es k = None"
  by (simp add: fromEntries_def assign_notin)

lemma cache_of_well_keyed:
  assumes "well_keyed now s ids"
  shows "cache_of now s ids i = (if i \<in> set ids then r_get now s i else None)"
proof -
  let ?xs = "List.map_filter id (map (r_get now s) ids)"
  let ?es = "map (\<lambda>x. (idv x, x)) ?xs"
  have xs: "x \<in> set ?xs \<longleftrightarrow> (\<exists>j \<in> set ids. r_get now s j = Some x)" for x
    by (force simp: set_map_filter)
  have sound: "i \<in> set ids \<and> r_get now s i = Some x" if "(i, x) \<in> set ?es" for x
  proof -
    from that have "x \<in> set ?xs" and i: "idv x = i" by auto
    then obtain j where j: "j \<in> set ids" "r_get now s j = Some x" using xs by blast
    with assms have "idv x = j" by (auto simp: well_keyed_def)
    with i j show ?thesis by simp
  qed
  show ?thesis
  proof (cases "i \<in> fst ` set ?es")
    case True
    from assign_in [OF this, of Map.empty] obtain v
      where v: "(i, v) \<in> set ?es" "assign Map.empty ?es i = Some v" by blast
    from sound [OF v(1)] v(2) show ?thesis
      by (simp add: cache_of_def fromEntries_def)
  next
    case False
    have none: "cache_of now s ids i = None"
      using False by (simp add: cache_of_def fromEntries_notin)
    show ?thesis
    proof (cases "i \<in> set ids")
      case in_ids: True
      have "r_get now s i = None"
      proof (rule ccontr)
        assume "r_get now s i \<noteq> None"
        then obtain x where x: "r_get now s i = Some x" by auto
        with in_ids have "x \<in> set ?xs" using xs by blast
        moreover from assms in_ids x have "idv x = i" by (auto simp: well_keyed_def)
        ultimately have "(i, x) \<in> set ?es" by force
        then have "i \<in> fst ` set ?es" by force
        with False show False by contradiction
      qed
      with none in_ids show ?thesis by simp
    next
      case notin: False
      with none show ?thesis by simp
    qed
  qed
qed

lemma fetch_single_miss:
  assumes "is_miss (cache_of now s [X]) X"
  shows "fetch cfg lk ap now s [X] =
     (let cache = cache_of now s [X];
          dc = filter (held_back cache (now - int (debounceTime cfg) * 1000)) [X];
          db = fromEntries (lk [X] False);
          rs = List.map_filter db [X];
          tc = List.map_filter (cached_entry now db dc) [X];
          nf = List.map_filter (tomb_entry cfg now db) [X];
          writes = map (\<lambda>(i, c). SET i c (Some (ttl cfg))) tc
                   @ concat (map (\<lambda>(i, c). [SETNX i c, EXPIRE i (ttl cfg)]) nf)
      in \<lparr>fr_results = (case ap of None \<Rightarrow> rs | Some f \<Rightarrow> f rs),
          fr_set = rs,
          fr_store = foldl (exec now) s writes,
          fr_mgets = [[X]],
          fr_lookups = [([X], False)],
          fr_toCache = tc,
          fr_toCacheNotFound = nf,
          fr_writes = writes\<rparr>)"
proof -
  have sv: "served (cache_of now s [X]) X = None"
    using assms by (auto simp: served_def is_miss_def split: option.splits)
  show ?thesis
    using assms sv
    by (cases ap)
       (simp_all add: fetch_def fetch_batched_closed Let_def chunk_single lookupAll_single
          List.map_filter_simps)
qed

lemma fetch_single_no_miss:
  assumes "\<not> is_miss (cache_of now s [X]) X"
  shows "fetch cfg lk ap now s [X] =
     (let rs = List.map_filter (served (cache_of now s [X])) [X]
      in \<lparr>fr_results = (case ap of None \<Rightarrow> rs | Some f \<Rightarrow> f rs),
          fr_set = rs,
          fr_store = s,
          fr_mgets = [[X]],
          fr_lookups = [],
          fr_toCache = [],
          fr_toCacheNotFound = [],
          fr_writes = []\<rparr>)"
  using assms
  by (cases ap)
     (simp_all add: fetch_def fetch_batched_closed Let_def chunk_single List.map_filter_simps)

subsection \<open>C3\<close>

text \<open>The equations that evaluate a call of \<open>fetch\<close>, \<open>bust\<close> or \<open>refresh\<close> on given
  arguments.\<close>

lemmas fetch_eval =
  fetch_def fetch_batched_def Let_def chunk.simps new_Set_def set_add_def fromEntries_def
  assign_def List.map_filter_simps r_get_def fetch_vars0_def scan_step_def lookupAll_def
  gather_step_def live_def expires_at_def r_set_def r_setNX_def r_expire_def r_del_def
  date_gt_def tombstone_def marker_def bust_def refresh_def

lemma r_get_earlier:
  "now \<le> now2 \<Longrightarrow> r_get now2 s k = Some v \<Longrightarrow> r_get now s k = Some v"
  by (auto simp: r_get_def live_def split: option.splits if_splits)

lemma fetch_absent_writes_tombstone:
  assumes absent: "X \<notin> fst ` set (lk [X] False)"
      and nf: "cacheNotFound cfg"
      and none: "r_get now s X = None"
  shows "fr_lookups (fetch cfg lk ap now s [X]) = [([X], False)]"
    and "fr_store (fetch cfg lk ap now s [X]) X
           = Some (tombstone now X, Some (expires_at now (ttl cfg)))"
proof -
  have miss: "is_miss (cache_of now s [X]) X"
    using none by (simp add: is_miss_def cache_of_single)
  have db: "fromEntries (lk [X] False) X = None"
    using absent by (rule fromEntries_notin)
  show "fr_lookups (fetch cfg lk ap now s [X]) = [([X], False)]"
    by (simp add: fetch_single_miss [OF miss] Let_def)
  have "fr_store (fetch cfg lk ap now s [X])
          = exec now (exec now s (SETNX X (tombstone now X))) (EXPIRE X (ttl cfg))"
    using db nf
    by (simp add: fetch_single_miss [OF miss] Let_def List.map_filter_simps
          cached_entry_def tomb_entry_def)
  then show "fr_store (fetch cfg lk ap now s [X]) X
           = Some (tombstone now X, Some (expires_at now (ttl cfg)))"
    using exec_pair_same [of now s X "tombstone now X" "ttl cfg"] none by simp
qed

lemma fetch_tombstoned:
  assumes "r_get now s X = Some (tombstone t X)"
  shows "fetch cfg lk ap now s [X]
           = \<lparr>fr_results = (case ap of None \<Rightarrow> [] | Some f \<Rightarrow> f []), fr_set = [],
              fr_store = s, fr_mgets = [[X]], fr_lookups = [], fr_toCache = [],
              fr_toCacheNotFound = [], fr_writes = []\<rparr>"
proof -
  have c: "cache_of now s [X] X = Some (tombstone t X)"
    using assms by (simp add: cache_of_single tombstone_def)
  have nm: "\<not> is_miss (cache_of now s [X]) X"
    using c by (simp add: is_miss_def tombstone_def)
  have sv: "served (cache_of now s [X]) X = None"
    using c by (simp add: served_def tombstone_def)
  show ?thesis
    using sv by (simp add: fetch_single_no_miss [OF nm] Let_def List.map_filter_simps)
qed

lemma fetch_absent_uncached:
  assumes absent: "X \<notin> fst ` set (lk [X] False)"
      and nf: "\<not> cacheNotFound cfg"
      and only_marker: "\<forall>e. r_get now s X = Some e \<longrightarrow> debounce e \<and> \<not> notFound e"
  shows "fr_lookups (fetch cfg lk ap now s [X]) = [([X], False)]"
    and "fr_store (fetch cfg lk ap now s [X]) = s"
proof -
  have miss: "is_miss (cache_of now s [X]) X"
  proof (cases "r_get now s X")
    case None
    then show ?thesis by (simp add: is_miss_def cache_of_single)
  next
    case (Some e)
    with only_marker have "debounce e \<and> \<not> notFound e" by blast
    with Some show ?thesis by (simp add: is_miss_def cache_of_single)
  qed
  have db: "fromEntries (lk [X] False) X = None"
    using absent by (rule fromEntries_notin)
  show "fr_lookups (fetch cfg lk ap now s [X]) = [([X], False)]"
    by (simp add: fetch_single_miss [OF miss] Let_def)
  show "fr_store (fetch cfg lk ap now s [X]) = s"
    using db nf
    by (simp add: fetch_single_miss [OF miss] Let_def List.map_filter_simps
          cached_entry_def tomb_entry_def)
qed

text \<open>
  C3, as the code has it. Let the lookup return nothing for \<open>X\<close>. With \<open>cacheNotFound\<close>
  enabled and no entry under \<open>X\<close> when \<open>fetch([X])\<close> runs, that call asks the lookup and
  leaves a tombstone, and a \<open>fetch([X])\<close> made before the tombstone expires asks no
  lookup, writes nothing and hands the empty set to \<open>appendFn\<close> (it returns the empty
  array when there is no \<open>appendFn\<close>). With \<open>cacheNotFound\<close> disabled and nothing under
  \<open>X\<close> but possibly a debounce marker, \<open>fetch([X])\<close> asks the lookup and leaves the
  store as it was, so every later \<open>fetch([X])\<close> asks it again.
\<close>

theorem fetch_negative_caching:
  assumes absent: "X \<notin> fst ` set (lk [X] False)"
  shows "(cacheNotFound cfg \<and> r_get now s X = None \<and> now \<le> now2
            \<and> now2 < expires_at now (ttl cfg) \<longrightarrow>
            fr_lookups (fetch cfg lk ap now s [X]) = [([X], False)]
          \<and> fr_lookups (fetch cfg lk2 ap now2 (fr_store (fetch cfg lk ap now s [X])) [X]) = []
          \<and> fr_set (fetch cfg lk2 ap now2 (fr_store (fetch cfg lk ap now s [X])) [X]) = []
          \<and> fr_results (fetch cfg lk2 ap now2 (fr_store (fetch cfg lk ap now s [X])) [X])
              = (case ap of None \<Rightarrow> [] | Some f \<Rightarrow> f [])
          \<and> fr_writes (fetch cfg lk2 ap now2 (fr_store (fetch cfg lk ap now s [X])) [X]) = [])
       \<and> (\<not> cacheNotFound cfg \<and> (\<forall>e. r_get now s X = Some e \<longrightarrow> debounce e \<and> \<not> notFound e)
            \<and> now \<le> now2 \<longrightarrow>
            fr_lookups (fetch cfg lk ap now s [X]) = [([X], False)]
          \<and> fr_store (fetch cfg lk ap now s [X]) = s
          \<and> fr_lookups (fetch cfg lk ap now2 (fr_store (fetch cfg lk ap now s [X])) [X])
              = [([X], False)])"
proof (intro conjI impI)
  assume h: "cacheNotFound cfg \<and> r_get now s X = None \<and> now \<le> now2
               \<and> now2 < expires_at now (ttl cfg)"
  let ?s1 = "fr_store (fetch cfg lk ap now s [X])"
  from h have nf: "cacheNotFound cfg" and none: "r_get now s X = None"
    and lv: "now2 < expires_at now (ttl cfg)" by simp_all
  show "fr_lookups (fetch cfg lk ap now s [X]) = [([X], False)]"
    using absent nf none by (rule fetch_absent_writes_tombstone)
  have "?s1 X = Some (tombstone now X, Some (expires_at now (ttl cfg)))"
    using absent nf none by (rule fetch_absent_writes_tombstone)
  with lv have held: "r_get now2 ?s1 X = Some (tombstone now X)"
    by (simp add: r_get_def live_def)
  note second = fetch_tombstoned [OF held, of cfg lk2 ap]
  show "fr_lookups (fetch cfg lk2 ap now2 ?s1 [X]) = []" by (simp add: second)
  show "fr_set (fetch cfg lk2 ap now2 ?s1 [X]) = []" by (simp add: second)
  show "fr_results (fetch cfg lk2 ap now2 ?s1 [X]) = (case ap of None \<Rightarrow> [] | Some f \<Rightarrow> f [])"
    by (simp add: second)
  show "fr_writes (fetch cfg lk2 ap now2 ?s1 [X]) = []" by (simp add: second)
next
  assume h: "\<not> cacheNotFound cfg \<and> (\<forall>e. r_get now s X = Some e \<longrightarrow> debounce e \<and> \<not> notFound e)
               \<and> now \<le> now2"
  then have nf: "\<not> cacheNotFound cfg"
    and only_marker: "\<forall>e. r_get now s X = Some e \<longrightarrow> debounce e \<and> \<not> notFound e"
    and le: "now \<le> now2" by blast+
  show "fr_lookups (fetch cfg lk ap now s [X]) = [([X], False)]"
    using absent nf only_marker by (rule fetch_absent_uncached)
  show same: "fr_store (fetch cfg lk ap now s [X]) = s"
    using absent nf only_marker by (rule fetch_absent_uncached)
  have later: "\<forall>e. r_get now2 s X = Some e \<longrightarrow> debounce e \<and> \<not> notFound e"
  proof (intro allI impI)
    fix e
    assume "r_get now2 s X = Some e"
    with le have "r_get now s X = Some e" by (rule r_get_earlier)
    with only_marker show "debounce e \<and> \<not> notFound e" by blast
  qed
  show "fr_lookups (fetch cfg lk ap now2 (fr_store (fetch cfg lk ap now s [X])) [X]) = [([X], False)]"
    unfolding same using absent nf later by (rule fetch_absent_uncached)
qed

text \<open>
  C3 as stated fails after a \<open>bust\<close>: with \<open>cacheNotFound\<close> enabled and a lookup that
  returns nothing, \<open>SETNX\<close> does not replace the debounce marker, so the \<open>fetch([1])\<close>
  that follows asks the lookup again.
\<close>

theorem fetch_negative_caching_counterexample:
  "cacheNotFound \<lparr>ttl = 60, debounceTime = 10, cacheNotFound = True\<rparr>
   \<and> fr_lookups (fetch \<lparr>ttl = 60, debounceTime = 10, cacheNotFound = True\<rparr>
        ((\<lambda>ids fw. []) :: string lookupFn) None 1000
        (wr_store (bust \<lparr>ttl = 60, debounceTime = 10, cacheNotFound = True\<rparr> 0 Map.empty (One 1)))
        [1]) = [([1], False)]
   \<and> fr_lookups (fetch \<lparr>ttl = 60, debounceTime = 10, cacheNotFound = True\<rparr>
        ((\<lambda>ids fw. []) :: string lookupFn) None 2000
        (fr_store (fetch \<lparr>ttl = 60, debounceTime = 10, cacheNotFound = True\<rparr>
           ((\<lambda>ids fw. []) :: string lookupFn) None 1000
           (wr_store (bust \<lparr>ttl = 60, debounceTime = 10, cacheNotFound = True\<rparr> 0 Map.empty (One 1)))
           [1]))
        [1]) = [([1], False)]"
  by (simp add: fetch_eval)

theorem fetch_negative_caching_witness:
  "fr_lookups (fetch \<lparr>ttl = 60, debounceTime = 10, cacheNotFound = True\<rparr>
        ((\<lambda>ids fw. []) :: string lookupFn) None 0 Map.empty [1]) = [([1], False)]
   \<and> fr_lookups (fetch \<lparr>ttl = 60, debounceTime = 10, cacheNotFound = True\<rparr>
        ((\<lambda>ids fw. []) :: string lookupFn) None 5000
        (fr_store (fetch \<lparr>ttl = 60, debounceTime = 10, cacheNotFound = True\<rparr>
           ((\<lambda>ids fw. []) :: string lookupFn) None 0 Map.empty [1]))
        [1]) = []
   \<and> fr_results (fetch \<lparr>ttl = 60, debounceTime = 10, cacheNotFound = True\<rparr>
        ((\<lambda>ids fw. []) :: string lookupFn) None 5000
        (fr_store (fetch \<lparr>ttl = 60, debounceTime = 10, cacheNotFound = True\<rparr>
           ((\<lambda>ids fw. []) :: string lookupFn) None 0 Map.empty [1]))
        [1]) = []
   \<and> fr_lookups (fetch \<lparr>ttl = 60, debounceTime = 10, cacheNotFound = False\<rparr>
        ((\<lambda>ids fw. []) :: string lookupFn) None 5000
        (fr_store (fetch \<lparr>ttl = 60, debounceTime = 10, cacheNotFound = False\<rparr>
           ((\<lambda>ids fw. []) :: string lookupFn) None 0 Map.empty [1]))
        [1]) = [([1], False)]"
proof -
  let ?on = "\<lparr>ttl = 60, debounceTime = 10, cacheNotFound = True\<rparr>"
  let ?off = "\<lparr>ttl = 60, debounceTime = 10, cacheNotFound = False\<rparr>"
  let ?lk = "(\<lambda>ids fw. []) :: string lookupFn"
  have absent: "1 \<notin> fst ` set (?lk [1] False)" by simp
  note on = fetch_negative_caching
              [where lk = ?lk and X = 1 and cfg = ?on and now = 0 and ?now2.0 = 5000
                 and s = Map.empty and ap = None and ?lk2.0 = ?lk, OF absent, THEN conjunct1]
  note off = fetch_negative_caching
              [where lk = ?lk and X = 1 and cfg = ?off and now = 0 and ?now2.0 = 5000
                 and s = Map.empty and ap = None and ?lk2.0 = ?lk, OF absent, THEN conjunct2]
  have h_on: "cacheNotFound ?on \<and> r_get 0 (Map.empty :: (int, string obj) redis) 1 = None \<and> (0::int) \<le> 5000
                \<and> 5000 < expires_at 0 (ttl ?on)"
    by (simp add: r_get_def expires_at_def)
  have h_off: "\<not> cacheNotFound ?off
                \<and> (\<forall>e. r_get 0 (Map.empty :: (int, string obj) redis) 1 = Some e \<longrightarrow> debounce e \<and> \<not> notFound e)
                \<and> (0::int) \<le> 5000"
    by (simp add: r_get_def)
  note a = on [rule_format, OF h_on]
  note b = off [rule_format, OF h_off]
  note a1 = a [THEN conjunct1]
  note a2 = a [THEN conjunct2, THEN conjunct1]
  note a4 = a [THEN conjunct2, THEN conjunct2, THEN conjunct2, THEN conjunct1, unfolded option.case]
  note b3 = b [THEN conjunct2, THEN conjunct2]
  show ?thesis
    by (intro conjI) (rule a1 a2 a4 b3)+
qed

subsection \<open>C1\<close>

lemma bust_one_store:
  "wr_store (bust cfg now0 s (One X)) = s(X \<mapsto> (marker X, Some (expires_at now0 (debounceTime cfg))))"
  by (simp add: bust_def Let_def r_set_def)

text \<open>After \<open>bust([X])\<close>, at any time, a \<open>fetch([X])\<close> whose lookup finds \<open>X\<close> writes
  the entity under \<open>X\<close>: inside the debounce window it replaces the marker.\<close>

lemma fetch_after_bust_writes:
  assumes found: "fromEntries (lk [X] False) X = Some e"
  shows "fr_lookups (fetch cfg lk ap now (wr_store (bust cfg now0 s (One X))) [X]) = [([X], False)]"
    and "fr_writes (fetch cfg lk ap now (wr_store (bust cfg now0 s (One X))) [X])
           = [SET X (e\<lparr>cachedAt := Some now\<rparr>) (Some (ttl cfg))]"
    and "fr_store (fetch cfg lk ap now (wr_store (bust cfg now0 s (One X))) [X]) X
           = Some (e\<lparr>cachedAt := Some now\<rparr>, Some (expires_at now (ttl cfg)))"
proof -
  let ?sb = "wr_store (bust cfg now0 s (One X))"
  have c: "cache_of now ?sb [X] X = None \<or> cache_of now ?sb [X] X = Some (marker X)"
    by (simp add: cache_of_single bust_one_store r_get_def marker_def)
  then have miss: "is_miss (cache_of now ?sb [X]) X"
    by (auto simp: is_miss_def marker_def)
  from c have free: "\<not> held_back (cache_of now ?sb [X]) cutoff X" for cutoff
    by (auto simp: held_back_def marker_def date_gt_def)
  show "fr_lookups (fetch cfg lk ap now ?sb [X]) = [([X], False)]"
    by (simp add: fetch_single_miss [OF miss] Let_def)
  show w: "fr_writes (fetch cfg lk ap now ?sb [X])
           = [SET X (e\<lparr>cachedAt := Some now\<rparr>) (Some (ttl cfg))]"
    using found free
    by (simp add: fetch_single_miss [OF miss] Let_def List.map_filter_simps
          cached_entry_def tomb_entry_def)
  have "fr_store (fetch cfg lk ap now ?sb [X]) = foldl (exec now) ?sb (fr_writes (fetch cfg lk ap now ?sb [X]))"
    by (simp add: fetch_def fetch_batched_store)
  then show "fr_store (fetch cfg lk ap now ?sb [X]) X
           = Some (e\<lparr>cachedAt := Some now\<rparr>, Some (expires_at now (ttl cfg)))"
    unfolding w by (simp add: r_set_def)
qed

text \<open>
  C1, at a concrete input. \<open>bust([1])\<close> at time 0 with a debounce window of 10 seconds,
  then \<open>fetch([1])\<close> one second later with a lookup that returns an entity for 1. When
  \<open>fetch\<close> reads the store the entry is the debounce marker; the lookup is called and
  the entity returned; and \<open>fetch\<close> writes the entity over the marker with the
  configured ttl. The marker that \<open>bust\<close> writes has no \<open>cachedAt\<close>, so the test
  \<open>cached.cachedAt > cacheDebounceCutoff\<close> is false for it and the id never enters
  \<open>dontCache\<close>; \<open>fetch_after_bust_writes\<close> is the same fact at every id and instant.
\<close>

theorem fetch_within_debounce_window_overwrites_marker:
  "r_get 1000 (wr_store (bust \<lparr>ttl = 60, debounceTime = 10, cacheNotFound = True\<rparr> 0 Map.empty (One 1))) 1
     = Some (marker 1 :: string obj)
   \<and> fr_lookups (fetch \<lparr>ttl = 60, debounceTime = 10, cacheNotFound = True\<rparr>
        (\<lambda>ids fw. [(1, \<lparr>idv = 1, rest = Some ''new'', notFound = False, debounce = False,
                         cachedAt = None\<rparr>)]) None 1000
        (wr_store (bust \<lparr>ttl = 60, debounceTime = 10, cacheNotFound = True\<rparr> 0 Map.empty (One 1)))
        [1]) = [([1], False)]
   \<and> fr_results (fetch \<lparr>ttl = 60, debounceTime = 10, cacheNotFound = True\<rparr>
        (\<lambda>ids fw. [(1, \<lparr>idv = 1, rest = Some ''new'', notFound = False, debounce = False,
                         cachedAt = None\<rparr>)]) None 1000
        (wr_store (bust \<lparr>ttl = 60, debounceTime = 10, cacheNotFound = True\<rparr> 0 Map.empty (One 1)))
        [1])
       = [\<lparr>idv = 1, rest = Some ''new'', notFound = False, debounce = False, cachedAt = None\<rparr>]
   \<and> fr_writes (fetch \<lparr>ttl = 60, debounceTime = 10, cacheNotFound = True\<rparr>
        (\<lambda>ids fw. [(1, \<lparr>idv = 1, rest = Some ''new'', notFound = False, debounce = False,
                         cachedAt = None\<rparr>)]) None 1000
        (wr_store (bust \<lparr>ttl = 60, debounceTime = 10, cacheNotFound = True\<rparr> 0 Map.empty (One 1)))
        [1])
       = [SET 1 \<lparr>idv = 1, rest = Some ''new'', notFound = False, debounce = False,
                 cachedAt = Some 1000\<rparr> (Some 60)]
   \<and> r_get 1000 (fr_store (fetch \<lparr>ttl = 60, debounceTime = 10, cacheNotFound = True\<rparr>
        (\<lambda>ids fw. [(1, \<lparr>idv = 1, rest = Some ''new'', notFound = False, debounce = False,
                         cachedAt = None\<rparr>)]) None 1000
        (wr_store (bust \<lparr>ttl = 60, debounceTime = 10, cacheNotFound = True\<rparr> 0 Map.empty (One 1)))
        [1])) 1
       = Some \<lparr>idv = 1, rest = Some ''new'', notFound = False, debounce = False,
               cachedAt = Some 1000\<rparr>"
  by (simp add: fetch_eval)

subsection \<open>C8\<close>

lemma assign_as_fromEntries:
  "assign m es i = (case fromEntries es i of None \<Rightarrow> m i | Some v \<Rightarrow> Some v)"
  by (induction es rule: rev_induct)
     (auto simp: fromEntries_def assign_snoc split: option.splits)

lemma lookupAll_snoc: "lookupAll lk (bs @ [b]) = assign (lookupAll lk bs) (lk b False)"
  by (simp add: lookupAll_def)

lemma lookupAll_consistent:
  assumes "lookup_consistent lk tbl"
  shows "lookupAll lk bs i = (if i \<in> \<Union> (set ` set bs) then tbl i else None)"
proof (induction bs rule: rev_induct)
  case Nil
  then show ?case by (simp add: lookupAll_def)
next
  case (snoc b bs)
  have f: "fromEntries (lk b False) i = (if i \<in> set b then tbl i else None)"
    using assms by (simp add: lookup_consistent_def)
  show ?case
    using snoc.IH
    by (auto simp: lookupAll_snoc assign_as_fromEntries f split: option.splits)
qed

lemma map_filter_eqI:
  "(\<And>x. x \<in> set xs \<Longrightarrow> f x = g x) \<Longrightarrow> List.map_filter f xs = List.map_filter g xs"
  by (induction xs) (auto simp: List.map_filter_simps split: option.splits)

lemma lookupAll_chunked:
  assumes "lookup_consistent lk tbl" and "0 < n" and "i \<in> set ms"
  shows "lookupAll lk (chunk ms n) i = tbl i"
  using assms(3) set_chunk [OF assms(2), of ms]
  by (simp add: lookupAll_consistent [OF assms(1)])

lemma fetch_batched_consistent:
  assumes c: "lookup_consistent lk tbl" and ne: "ids \<noteq> []" and m: "0 < m" and n: "0 < n"
  shows "fetch_batched m n cfg lk ap now s ids =
     (let cache = cache_of now s ids;
          cutoff = now - int (debounceTime cfg) * 1000;
          ms = filter (is_miss cache) (new_Set ids);
          dc = filter (held_back cache cutoff) (new_Set ids);
          rs = List.map_filter (served cache) (new_Set ids) @ List.map_filter tbl ms;
          tc = List.map_filter (cached_entry now tbl dc) ms;
          nf = List.map_filter (tomb_entry cfg now tbl) ms;
          writes = map (\<lambda>(i, c). SET i c (Some (ttl cfg))) tc
                   @ concat (map (\<lambda>(i, c). [SETNX i c, EXPIRE i (ttl cfg)]) nf)
      in \<lparr>fr_results = (case ap of None \<Rightarrow> rs | Some f \<Rightarrow> f rs),
          fr_set = rs,
          fr_store = foldl (exec now) s writes,
          fr_mgets = chunk ids m,
          fr_lookups = map (\<lambda>batch. (batch, False)) (if ms = [] then [] else chunk ms n),
          fr_toCache = tc,
          fr_toCacheNotFound = nf,
          fr_writes = writes\<rparr>)"
proof -
  let ?cache = "cache_of now s ids"
  let ?ms = "filter (is_miss ?cache) (new_Set ids)"
  let ?dc = "filter (held_back ?cache (now - int (debounceTime cfg) * 1000)) (new_Set ids)"
  let ?db = "lookupAll lk (if ?ms = [] then [] else chunk ?ms n)"
  have db: "?db i = tbl i" if "i \<in> set ?ms" for i
  proof -
    from that have "?ms \<noteq> []" by (metis empty_iff list.set(1))
    then show ?thesis using lookupAll_chunked [OF c n that] by simp
  qed
  have 1: "List.map_filter ?db ?ms = List.map_filter tbl ?ms"
    by (rule map_filter_eqI) (rule db)
  have 2: "List.map_filter (cached_entry now ?db ?dc) ?ms = List.map_filter (cached_entry now tbl ?dc) ?ms"
    by (rule map_filter_eqI) (simp add: cached_entry_def db)
  have 3: "List.map_filter (tomb_entry cfg now ?db) ?ms = List.map_filter (tomb_entry cfg now tbl) ?ms"
    by (rule map_filter_eqI) (simp add: tomb_entry_def db)
  show ?thesis
    unfolding fetch_batched_closed [OF ne m] Let_def 1 2 3 ..
qed

lemma chunk_boundary:
  "0 < n \<Longrightarrow> length xs = n \<Longrightarrow> chunk xs n = [xs]"
  "0 < n \<Longrightarrow> length xs = Suc n \<Longrightarrow> chunk xs n = [take n xs, drop n xs]"
proof -
  assume n: "0 < n" and l: "length xs = n"
  then have "xs \<noteq> []" by auto
  then show "chunk xs n = [xs]" using l by (simp add: chunk_all)
next
  assume n: "0 < n" and l: "length xs = Suc n"
  then have ne: "xs \<noteq> []" by auto
  have d: "drop n xs \<noteq> []" "length (drop n xs) \<le> n" using l n by auto
  show "chunk xs n = [take n xs, drop n xs]"
    using chunk_step [OF n ne] chunk_all [OF d] by simp
qed

lemma length_new_Set: "length (new_Set ids) \<le> length ids"
proof -
  have "length (new_Set ids) = card (set (new_Set ids))"
    using distinct_card [OF distinct_new_Set, of ids] by simp
  also have "\<dots> \<le> length ids" by (simp add: card_length)
  finally show ?thesis .
qed

lemma fetch_unchunked_calls:
  "length (fr_mgets (fetch_unchunked cfg lk ap now s ids)) \<le> 1"
  "length (fr_lookups (fetch_unchunked cfg lk ap now s ids)) \<le> 1"
proof -
  show "length (fr_mgets (fetch_unchunked cfg lk ap now s ids)) \<le> 1"
  proof (cases "ids = []")
    case True
    then show ?thesis by (simp add: fetch_unchunked_def fetch_batched_def)
  next
    case False
    then show ?thesis
      by (simp add: fetch_unchunked_def fetch_batched_closed Let_def chunk_all)
  qed
  show "length (fr_lookups (fetch_unchunked cfg lk ap now s ids)) \<le> 1"
  proof (cases "ids = []")
    case True
    then show ?thesis by (simp add: fetch_unchunked_def fetch_batched_def)
  next
    case False
    let ?ms = "filter (is_miss (cache_of now s ids)) (new_Set ids)"
    have "length ?ms \<le> length (new_Set ids)" by simp
    then have le: "length ?ms \<le> length ids" using length_new_Set [of ids] by linarith
    have "?ms \<noteq> [] \<Longrightarrow> chunk ?ms (length ids) = [?ms]"
      using le by (simp add: chunk_all)
    then show ?thesis using False
      by (auto simp: fetch_unchunked_def fetch_batched_closed Let_def)
  qed
qed

lemma fetch_batch_bounds:
  "\<forall>b \<in> set (fr_mgets (fetch cfg lk ap now s ids)). length b \<le> 200"
  "\<forall>c \<in> set (fr_lookups (fetch cfg lk ap now s ids)). length (fst c) \<le> 10000"
  "concat (fr_mgets (fetch cfg lk ap now s ids)) = ids"
proof -
  show "\<forall>b \<in> set (fr_mgets (fetch cfg lk ap now s ids)). length b \<le> 200"
    by (cases "ids = []")
       (auto simp: fetch_def fetch_batched_def Let_def dest: chunk_length_le)
  show "\<forall>c \<in> set (fr_lookups (fetch cfg lk ap now s ids)). length (fst c) \<le> 10000"
    by (cases "ids = []")
       (auto simp: fetch_def fetch_batched_def Let_def dest: chunk_length_le)
  show "concat (fr_mgets (fetch cfg lk ap now s ids)) = ids"
    by (cases "ids = []")
       (simp_all add: fetch_def fetch_batched_def Let_def concat_chunk)
qed

text \<open>
  C8. For every list of ids, every multi-get of \<open>fetch\<close> holds at most 200 keys and
  every lookup call at most 10000 ids, and the multi-gets together hold the ids as
  given. When the lookup answers each id from one table whatever the batch, \<open>fetch\<close>
  returns the same array, hands the same set to \<open>appendFn\<close>, issues the same writes and
  leaves the same store as the single unchunked pass, which makes at most one multi-get
  and one lookup call. \<open>chunk_boundary\<close> gives the batches at the boundaries: a list as
  long as the batch size is one batch, one element more makes a second batch of one.
\<close>

theorem fetch_independent_of_chunking:
  assumes "lookup_consistent lk tbl"
  shows "(\<forall>b \<in> set (fr_mgets (fetch cfg lk ap now s ids)). length b \<le> 200)
       \<and> (\<forall>c \<in> set (fr_lookups (fetch cfg lk ap now s ids)). length (fst c) \<le> 10000)
       \<and> concat (fr_mgets (fetch cfg lk ap now s ids)) = ids
       \<and> length (fr_mgets (fetch_unchunked cfg lk ap now s ids)) \<le> 1
       \<and> length (fr_lookups (fetch_unchunked cfg lk ap now s ids)) \<le> 1
       \<and> fr_results (fetch cfg lk ap now s ids) = fr_results (fetch_unchunked cfg lk ap now s ids)
       \<and> fr_set (fetch cfg lk ap now s ids) = fr_set (fetch_unchunked cfg lk ap now s ids)
       \<and> fr_writes (fetch cfg lk ap now s ids) = fr_writes (fetch_unchunked cfg lk ap now s ids)
       \<and> fr_store (fetch cfg lk ap now s ids) = fr_store (fetch_unchunked cfg lk ap now s ids)"
proof -
  have same: "fr_results (fetch cfg lk ap now s ids) = fr_results (fetch_unchunked cfg lk ap now s ids)
       \<and> fr_set (fetch cfg lk ap now s ids) = fr_set (fetch_unchunked cfg lk ap now s ids)
       \<and> fr_writes (fetch cfg lk ap now s ids) = fr_writes (fetch_unchunked cfg lk ap now s ids)
       \<and> fr_store (fetch cfg lk ap now s ids) = fr_store (fetch_unchunked cfg lk ap now s ids)"
  proof (cases "ids = []")
    case True
    then show ?thesis by (simp add: fetch_def fetch_unchunked_def fetch_batched_def)
  next
    case False
    then have l: "0 < length ids" by simp
    have a: "0 < (200::nat)" and b: "0 < (10000::nat)" by simp_all
    show ?thesis
      unfolding fetch_def fetch_unchunked_def
        fetch_batched_consistent [OF assms False a b]
        fetch_batched_consistent [OF assms False l l]
      by (simp add: Let_def)
  qed
  from fetch_batch_bounds [of cfg lk ap now s ids] fetch_unchunked_calls [of cfg lk ap now s ids] same
  show ?thesis by blast
qed

theorem fetch_independent_of_chunking_witness:
  "lookup_consistent
     (\<lambda>ids fw. if 1 \<in> set ids
                then [(1, \<lparr>idv = 1, rest = Some ''a'', notFound = False, debounce = False,
                           cachedAt = None\<rparr>)]
                else [])
     [1 \<mapsto> \<lparr>idv = 1, rest = Some ''a'', notFound = False, debounce = False, cachedAt = None\<rparr>]
   \<and> fr_results (fetch \<lparr>ttl = 60, debounceTime = 10, cacheNotFound = True\<rparr>
        (\<lambda>ids fw. if 1 \<in> set ids
                then [(1, \<lparr>idv = 1, rest = Some ''a'', notFound = False, debounce = False,
                           cachedAt = None\<rparr>)]
                else []) None 0 Map.empty [1, 2, 1])
       = fr_results (fetch_unchunked \<lparr>ttl = 60, debounceTime = 10, cacheNotFound = True\<rparr>
        (\<lambda>ids fw. if 1 \<in> set ids
                then [(1, \<lparr>idv = 1, rest = Some ''a'', notFound = False, debounce = False,
                           cachedAt = None\<rparr>)]
                else []) None 0 Map.empty [1, 2, 1])
   \<and> fr_store (fetch \<lparr>ttl = 60, debounceTime = 10, cacheNotFound = True\<rparr>
        (\<lambda>ids fw. if 1 \<in> set ids
                then [(1, \<lparr>idv = 1, rest = Some ''a'', notFound = False, debounce = False,
                           cachedAt = None\<rparr>)]
                else []) None 0 Map.empty [1, 2, 1])
       = fr_store (fetch_unchunked \<lparr>ttl = 60, debounceTime = 10, cacheNotFound = True\<rparr>
        (\<lambda>ids fw. if 1 \<in> set ids
                then [(1, \<lparr>idv = 1, rest = Some ''a'', notFound = False, debounce = False,
                           cachedAt = None\<rparr>)]
                else []) None 0 Map.empty [1, 2, 1])"
proof -
  let ?A = "\<lparr>idv = 1, rest = Some ''a'', notFound = False, debounce = False, cachedAt = None\<rparr>"
  let ?lk = "(\<lambda>ids fw. if 1 \<in> set ids then [(1, ?A)] else []) :: string lookupFn"
  have h: "lookup_consistent ?lk [1 \<mapsto> ?A]"
    by (simp add: lookup_consistent_def fromEntries_def assign_def)
  note th = fetch_independent_of_chunking
              [OF h, where cfg = "\<lparr>ttl = 60, debounceTime = 10, cacheNotFound = True\<rparr>"
                 and ap = None and now = 0 and s = Map.empty and ids = "[1, 2, 1]"]
  note r = th [THEN conjunct2, THEN conjunct2, THEN conjunct2, THEN conjunct2, THEN conjunct2,
               THEN conjunct1]
  note st = th [THEN conjunct2, THEN conjunct2, THEN conjunct2, THEN conjunct2, THEN conjunct2,
               THEN conjunct2, THEN conjunct2, THEN conjunct2]
  show ?thesis
    by (intro conjI) (rule h r st)+
qed

subsection \<open>C2\<close>

lemma lookupAll_sane:
  assumes "lookup_sane lk"
  shows "lookupAll lk bs i = Some x \<Longrightarrow> idv x = i \<and> \<not> notFound x \<and> \<not> debounce x"
proof (induction bs arbitrary: x rule: rev_induct)
  case Nil
  then show ?case by (simp add: lookupAll_def)
next
  case (snoc b bs)
  from snoc.prems have "assign (lookupAll lk bs) (lk b False) i = Some x"
    by (simp add: lookupAll_snoc)
  then have "(i, x) \<in> set (lk b False) \<or> lookupAll lk bs i = Some x"
    by (rule assign_Some)
  then show ?case
  proof
    assume "(i, x) \<in> set (lk b False)"
    with assms show ?thesis unfolding lookup_sane_def by blast
  next
    assume "lookupAll lk bs i = Some x"
    then show ?thesis by (rule snoc.IH)
  qed
qed

lemma fetch_idempotent_core:
  assumes ne: "ids \<noteq> []"
      and nf: "cacheNotFound cfg"
      and sane: "lookup_sane lk"
      and wk: "well_keyed now s ids"
      and nomark: "\<forall>i \<in> set ids. \<forall>x. r_get now s i = Some x \<longrightarrow> \<not> debounce x"
      and keep: "\<forall>i \<in> set ids. \<forall>x. r_get now s i = Some x \<longrightarrow> r_get now2 s i = Some x"
      and before: "now2 < expires_at now (ttl cfg)"
  shows "fr_lookups (fetch cfg lk2 ap now2 (fr_store (fetch cfg lk ap now s ids)) ids) = []"
    and "fr_writes (fetch cfg lk2 ap now2 (fr_store (fetch cfg lk ap now s ids)) ids) = []"
    and "unstamped ` set (fr_set (fetch cfg lk2 ap now2 (fr_store (fetch cfg lk ap now s ids)) ids))
           = unstamped ` set (fr_set (fetch cfg lk ap now s ids))"
proof -
  define cache1 where "cache1 = cache_of now s ids"
  define ms where "ms = filter (is_miss cache1) (new_Set ids)"
  define dc where "dc = filter (held_back cache1 (now - int (debounceTime cfg) * 1000)) (new_Set ids)"
  define db where "db = lookupAll lk (if ms = [] then [] else chunk ms 10000)"
  define r1 where "r1 = fetch cfg lk ap now s ids"
  define s1 where "s1 = fr_store r1"
  have r1b: "r1 = fetch_batched 200 10000 cfg lk ap now s ids"
    by (simp add: r1_def fetch_def)
  have pos: "0 < (200::nat)" by simp
  have tc: "fr_toCache r1 = List.map_filter (cached_entry now db dc) ms"
    by (simp add: r1b fetch_batched_closed [OF ne pos] Let_def cache1_def ms_def dc_def db_def)
  have nft: "fr_toCacheNotFound r1 = List.map_filter (tomb_entry cfg now db) ms"
    by (simp add: r1b fetch_batched_closed [OF ne pos] Let_def cache1_def ms_def dc_def db_def)
  have set1: "fr_set r1 = List.map_filter (served cache1) (new_Set ids) @ List.map_filter db ms"
    by (simp add: r1b fetch_batched_closed [OF ne pos] Let_def cache1_def ms_def dc_def db_def)
  have st1: "s1 = foldl (exec now) s (fr_writes r1)"
    by (simp add: s1_def r1b fetch_batched_store)
  \<comment> \<open>the first call's view of the store\<close>
  have c1: "cache1 i = r_get now s i" if "i \<in> set ids" for i
    using that by (simp add: cache1_def cache_of_well_keyed [OF wk])
  have miss1: "is_miss cache1 i \<longleftrightarrow> r_get now s i = None" if "i \<in> set ids" for i
    using that nomark by (auto simp: is_miss_def c1 split: option.splits)
  have in_ms: "i \<in> set ms \<longleftrightarrow> i \<in> set ids \<and> r_get now s i = None" for i
    using miss1 by (auto simp: ms_def)
  have dc_empty: "dc = []"
  proof -
    have "\<not> held_back cache1 c i" if "i \<in> set ids" for i c
      using that nomark by (auto simp: held_back_def c1 split: option.splits)
    then show ?thesis by (simp add: dc_def filter_empty_conv)
  qed
  have dbs: "idv x = i \<and> \<not> notFound x \<and> \<not> debounce x" if "db i = Some x" for i x
    using that unfolding db_def by (rule lookupAll_sane [OF sane])
  \<comment> \<open>the store the first call leaves, at the ids\<close>
  have kept: "r_get now2 s1 i = Some x" if "i \<in> set ids" "r_get now s i = Some x" for i x
  proof -
    from that have nm: "i \<notin> set ms" by (simp add: in_ms)
    have a: "i \<notin> fst ` set (fr_toCache r1)"
      using nm by (auto simp: tc set_map_filter cached_entry_def split: option.splits if_splits)
    have b: "i \<notin> fst ` set (fr_toCacheNotFound r1)"
      using nm by (auto simp: nft set_map_filter tomb_entry_def split: option.splits if_splits)
    have "s1 i = s i"
      unfolding st1 using a b unfolding r1b by (rule writes_elsewhere)
    then have "r_get now2 s1 i = r_get now2 s i" by (simp add: r_get_def)
    with keep that show ?thesis by simp
  qed
  have cached: "r_get now2 s1 i = Some (x\<lparr>cachedAt := Some now\<rparr>)"
    if "i \<in> set ids" "r_get now s i = None" "db i = Some x" for i x
  proof -
    from that have im: "i \<in> set ms" by (simp add: in_ms)
    have "cached_entry now db dc i = Some (i, x\<lparr>cachedAt := Some now\<rparr>)"
      using that(3) by (simp add: cached_entry_def dc_empty)
    with im have "(i, x\<lparr>cachedAt := Some now\<rparr>) \<in> set (fr_toCache r1)"
      unfolding tc set_map_filter by blast
    then have "s1 i = Some (x\<lparr>cachedAt := Some now\<rparr>, Some (expires_at now (ttl cfg)))"
      unfolding st1 r1b using writes_on_toCache [OF pos] by blast
    then show ?thesis using before by (simp add: r_get_def live_def)
  qed
  have tombed: "r_get now2 s1 i = Some (tombstone now i)"
    if "i \<in> set ids" "r_get now s i = None" "db i = None" for i
  proof -
    from that have im: "i \<in> set ms" by (simp add: in_ms)
    have "tomb_entry cfg now db i = Some (i, tombstone now i)"
      using that(3) nf by (simp add: tomb_entry_def)
    with im have "(i, tombstone now i) \<in> set (fr_toCacheNotFound r1)"
      unfolding nft set_map_filter by blast
    then have "s1 i = Some (case r_get now s i of None \<Rightarrow> tombstone now i | Some v \<Rightarrow> v,
                            Some (expires_at now (ttl cfg)))"
      unfolding st1 r1b using writes_on_toCacheNotFound [OF pos] by blast
    then show ?thesis using before that(2) by (simp add: r_get_def live_def)
  qed
  \<comment> \<open>the second call\<close>
  define cache2 where "cache2 = cache_of now2 s1 ids"
  have view2: "\<exists>y. r_get now2 s1 i = Some y \<and> idv y = i \<and> \<not> debounce y" if "i \<in> set ids" for i
  proof (cases "r_get now s i")
    case (Some x)
    with wk that have "idv x = i" by (auto simp: well_keyed_def)
    moreover from nomark that Some have "\<not> debounce x" by blast
    ultimately show ?thesis using kept [OF that Some] by simp
  next
    case None
    show ?thesis
    proof (cases "db i")
      case db_none: None
      then show ?thesis using tombed [OF that None] by (simp add: tombstone_def)
    next
      case (Some x)
      with dbs have "idv x = i \<and> \<not> debounce x" by blast
      then show ?thesis using cached [OF that None Some] by simp
    qed
  qed
  have wk2: "well_keyed now2 s1 ids"
    using view2 by (fastforce simp: well_keyed_def)
  have c2: "cache2 i = r_get now2 s1 i" if "i \<in> set ids" for i
    using that by (simp add: cache2_def cache_of_well_keyed [OF wk2])
  have nomiss2: "\<not> is_miss cache2 i" if "i \<in> set ids" for i
    using view2 [OF that] by (auto simp: is_miss_def c2 [OF that])
  have ms2: "filter (is_miss cache2) (new_Set ids) = []"
    using nomiss2 by (simp add: filter_empty_conv)
  define r2 where "r2 = fetch cfg lk2 ap now2 s1 ids"
  have r2b: "r2 = fetch_batched 200 10000 cfg lk2 ap now2 s1 ids"
    by (simp add: r2_def fetch_def)
  have l2: "fr_lookups r2 = []"
    using ms2 by (simp add: r2b fetch_batched_closed [OF ne pos] Let_def cache2_def)
  have w2: "fr_writes r2 = []"
    using ms2 by (simp add: r2b fetch_batched_closed [OF ne pos] Let_def cache2_def
                    List.map_filter_simps)
  have set2: "fr_set r2 = List.map_filter (served cache2) (new_Set ids)"
    using ms2 by (simp add: r2b fetch_batched_closed [OF ne pos] Let_def cache2_def
                    List.map_filter_simps)
  \<comment> \<open>the two result sets\<close>
  have sub21: "unstamped y \<in> unstamped ` set (fr_set r1)" if "y \<in> set (fr_set r2)" for y
  proof -
    from that obtain i where i: "i \<in> set ids" "served cache2 i = Some y"
      by (auto simp: set2 set_map_filter)
    then have y: "r_get now2 s1 i = Some y" "\<not> notFound y"
      by (auto simp: served_def c2 split: option.splits if_splits)
    show ?thesis
    proof (cases "r_get now s i")
      case (Some x)
      from kept [OF i(1) Some] y have "y = x" by simp
      with i y Some have "served cache1 i = Some y"
        by (auto simp: served_def c1 c2 split: option.splits if_splits)
      with i(1) have "y \<in> set (fr_set r1)" by (auto simp: set1 set_map_filter)
      then show ?thesis by blast
    next
      case None
      show ?thesis
      proof (cases "db i")
        case db_none: None
        from tombed [OF i(1) None db_none] y show ?thesis by (simp add: tombstone_def)
      next
        case (Some x)
        from cached [OF i(1) None Some] y have yx: "y = x\<lparr>cachedAt := Some now\<rparr>" by simp
        from i(1) None have "i \<in> set ms" by (simp add: in_ms)
        with Some have "x \<in> set (fr_set r1)" by (auto simp: set1 set_map_filter)
        moreover have "unstamped y = unstamped x" by (simp add: yx unstamped_def)
        ultimately show ?thesis by (metis imageI)
      qed
    qed
  qed
  have sub12: "unstamped x \<in> unstamped ` set (fr_set r2)" if "x \<in> set (fr_set r1)" for x
  proof -
    from that consider
        (hit) i where "i \<in> set ids" "served cache1 i = Some x"
      | (looked) i where "i \<in> set ms" "db i = Some x"
      by (auto simp: set1 set_map_filter)
    then show ?thesis
    proof cases
      case hit
      then have x: "r_get now s i = Some x" "\<not> notFound x" "\<not> debounce x"
        by (auto simp: served_def c1 split: option.splits if_splits)
      from kept [OF hit(1) x(1)] x have "served cache2 i = Some x"
        by (simp add: served_def c2 [OF hit(1)])
      with hit(1) have "x \<in> set (fr_set r2)" by (auto simp: set2 set_map_filter)
      then show ?thesis by blast
    next
      case looked
      then have i: "i \<in> set ids" "r_get now s i = None" by (simp_all add: in_ms)
      from dbs [OF looked(2)] have plain: "\<not> notFound x" "\<not> debounce x" by simp_all
      from cached [OF i looked(2)] plain
      have "served cache2 i = Some (x\<lparr>cachedAt := Some now\<rparr>)"
        by (simp add: served_def c2 [OF i(1)])
      with i(1) have "x\<lparr>cachedAt := Some now\<rparr> \<in> set (fr_set r2)"
        by (auto simp: set2 set_map_filter)
      moreover have "unstamped (x\<lparr>cachedAt := Some now\<rparr>) = unstamped x"
        by (simp add: unstamped_def)
      ultimately show ?thesis by (metis imageI)
    qed
  qed
  show "fr_lookups (fetch cfg lk2 ap now2 (fr_store (fetch cfg lk ap now s ids)) ids) = []"
    using l2 by (simp add: r2_def s1_def r1_def)
  show "fr_writes (fetch cfg lk2 ap now2 (fr_store (fetch cfg lk ap now s ids)) ids) = []"
    using w2 by (simp add: r2_def s1_def r1_def)
  have "unstamped ` set (fr_set r2) = unstamped ` set (fr_set r1)"
    using sub21 sub12 by blast
  then show "unstamped ` set (fr_set (fetch cfg lk2 ap now2 (fr_store (fetch cfg lk ap now s ids)) ids))
           = unstamped ` set (fr_set (fetch cfg lk ap now s ids))"
    by (simp add: r2_def s1_def r1_def)
qed

text \<open>
  C2, as the code has it. Let \<open>cacheNotFound\<close> be enabled, let the lookup file every
  entity under its own id and return plain entities, let the entries the cache holds
  for the ids carry their id and none be a debounce marker, and let the second call
  come while the entries the first call read are still there and before those it wrote
  expire. Then the second of two calls of \<open>fetch\<close> with the same ids, run on the store
  the first one left, asks no lookup and writes nothing, and the two calls hand the
  same entities to \<open>appendFn\<close> (and return the same entities when there is no
  \<open>appendFn\<close>) up to \<open>cachedAt\<close>: an entity served from the cache carries the stamp it was
  cached with, a looked-up one is returned as the lookup gave it.
\<close>

theorem fetch_twice_no_second_lookup:
  assumes nf: "cacheNotFound cfg"
      and sane: "lookup_sane lk"
      and wk: "well_keyed now s ids"
      and nomark: "\<forall>i \<in> set ids. \<forall>x. r_get now s i = Some x \<longrightarrow> \<not> debounce x"
      and keep: "\<forall>i \<in> set ids. \<forall>x. r_get now s i = Some x \<longrightarrow> r_get now2 s i = Some x"
      and before: "now2 < expires_at now (ttl cfg)"
  shows "fr_lookups (fetch cfg lk2 ap now2 (fr_store (fetch cfg lk ap now s ids)) ids) = []
       \<and> fr_writes (fetch cfg lk2 ap now2 (fr_store (fetch cfg lk ap now s ids)) ids) = []
       \<and> unstamped ` set (fr_set (fetch cfg lk2 ap now2 (fr_store (fetch cfg lk ap now s ids)) ids))
           = unstamped ` set (fr_set (fetch cfg lk ap now s ids))
       \<and> (ap = None \<longrightarrow>
            unstamped ` set (fr_results (fetch cfg lk2 ap now2 (fr_store (fetch cfg lk ap now s ids)) ids))
              = unstamped ` set (fr_results (fetch cfg lk ap now s ids)))"
proof (cases "ids = []")
  case True
  then show ?thesis by (simp add: fetch_def fetch_batched_def)
next
  case False
  note core = fetch_idempotent_core [OF False nf sane wk nomark keep before, of lk2 ap]
  have res: "fr_results (fetch c l None t st ids) = fr_set (fetch c l None t st ids)"
    for c and l :: "'a lookupFn" and t st
    by (simp add: fetch_def fetch_batched_def Let_def)
  have "ap = None \<longrightarrow>
            unstamped ` set (fr_results (fetch cfg lk2 ap now2 (fr_store (fetch cfg lk ap now s ids)) ids))
              = unstamped ` set (fr_results (fetch cfg lk ap now s ids))"
  proof
    assume n: "ap = None"
    show "unstamped ` set (fr_results (fetch cfg lk2 ap now2 (fr_store (fetch cfg lk ap now s ids)) ids))
              = unstamped ` set (fr_results (fetch cfg lk ap now s ids))"
      using core(3) unfolding n res .
  qed
  with core show ?thesis by blast
qed

text \<open>
  C2 as stated fails in three ways. On an empty cache the first call returns the
  looked-up entity and the second the cached one, which has a \<open>cachedAt\<close>. With
  \<open>cacheNotFound\<close> disabled an id the lookup does not know is looked up by the second call
  too. With a debounce marker under an id the lookup does not know, no tombstone
  replaces the marker and the second call looks the id up again.
\<close>

theorem fetch_twice_no_second_lookup_counterexample:
  "fr_results (fetch \<lparr>ttl = 60, debounceTime = 10, cacheNotFound = True\<rparr>
        (\<lambda>ids fw. [(1, \<lparr>idv = 1, rest = Some ''a'', notFound = False, debounce = False,
                         cachedAt = None\<rparr>)]) None 0 Map.empty [1])
     = [\<lparr>idv = 1, rest = Some ''a'', notFound = False, debounce = False, cachedAt = None\<rparr>]
   \<and> fr_results (fetch \<lparr>ttl = 60, debounceTime = 10, cacheNotFound = True\<rparr>
        (\<lambda>ids fw. [(1, \<lparr>idv = 1, rest = Some ''a'', notFound = False, debounce = False,
                         cachedAt = None\<rparr>)]) None 0
        (fr_store (fetch \<lparr>ttl = 60, debounceTime = 10, cacheNotFound = True\<rparr>
           (\<lambda>ids fw. [(1, \<lparr>idv = 1, rest = Some ''a'', notFound = False, debounce = False,
                            cachedAt = None\<rparr>)]) None 0 Map.empty [1]))
        [1])
     = [\<lparr>idv = 1, rest = Some ''a'', notFound = False, debounce = False, cachedAt = Some 0\<rparr>]
   \<and> fr_lookups (fetch \<lparr>ttl = 60, debounceTime = 10, cacheNotFound = False\<rparr>
        ((\<lambda>ids fw. []) :: string lookupFn) None 0
        (fr_store (fetch \<lparr>ttl = 60, debounceTime = 10, cacheNotFound = False\<rparr>
           ((\<lambda>ids fw. []) :: string lookupFn) None 0 Map.empty [1]))
        [1]) = [([1], False)]
   \<and> fr_lookups (fetch \<lparr>ttl = 60, debounceTime = 10, cacheNotFound = True\<rparr>
        ((\<lambda>ids fw. []) :: string lookupFn) None 3000
        (fr_store (fetch \<lparr>ttl = 60, debounceTime = 10, cacheNotFound = True\<rparr>
           ((\<lambda>ids fw. []) :: string lookupFn) None 3000
           (wr_store (bust \<lparr>ttl = 60, debounceTime = 10, cacheNotFound = True\<rparr> 0 Map.empty
              (Many [1])))
           [1]))
        [1]) = [([1], False)]"
  by (simp add: fetch_eval)

theorem fetch_twice_no_second_lookup_witness:
  "fr_lookups (fetch \<lparr>ttl = 60, debounceTime = 10, cacheNotFound = True\<rparr>
        (\<lambda>ids fw. if 1 \<in> set ids
                    then [(1, \<lparr>idv = 1, rest = Some ''a'', notFound = False, debounce = False,
                               cachedAt = None\<rparr>)]
                    else [])
        None 5000
        (fr_store (fetch \<lparr>ttl = 60, debounceTime = 10, cacheNotFound = True\<rparr>
           (\<lambda>ids fw. if 1 \<in> set ids
                    then [(1, \<lparr>idv = 1, rest = Some ''a'', notFound = False, debounce = False,
                               cachedAt = None\<rparr>)]
                    else [])
           None 0
           [3 \<mapsto> (\<lparr>idv = 3, rest = Some ''c'', notFound = False, debounce = False,
                     cachedAt = Some (-7)\<rparr>, Some 100000)]
           [1, 2, 3]))
        [1, 2, 3]) = []
   \<and> unstamped ` set (fr_results (fetch \<lparr>ttl = 60, debounceTime = 10, cacheNotFound = True\<rparr>
        (\<lambda>ids fw. if 1 \<in> set ids
                    then [(1, \<lparr>idv = 1, rest = Some ''a'', notFound = False, debounce = False,
                               cachedAt = None\<rparr>)]
                    else [])
        None 5000
        (fr_store (fetch \<lparr>ttl = 60, debounceTime = 10, cacheNotFound = True\<rparr>
           (\<lambda>ids fw. if 1 \<in> set ids
                    then [(1, \<lparr>idv = 1, rest = Some ''a'', notFound = False, debounce = False,
                               cachedAt = None\<rparr>)]
                    else [])
           None 0
           [3 \<mapsto> (\<lparr>idv = 3, rest = Some ''c'', notFound = False, debounce = False,
                     cachedAt = Some (-7)\<rparr>, Some 100000)]
           [1, 2, 3]))
        [1, 2, 3]))
     = unstamped ` set (fr_results (fetch \<lparr>ttl = 60, debounceTime = 10, cacheNotFound = True\<rparr>
           (\<lambda>ids fw. if 1 \<in> set ids
                    then [(1, \<lparr>idv = 1, rest = Some ''a'', notFound = False, debounce = False,
                               cachedAt = None\<rparr>)]
                    else [])
           None 0
           [3 \<mapsto> (\<lparr>idv = 3, rest = Some ''c'', notFound = False, debounce = False,
                     cachedAt = Some (-7)\<rparr>, Some 100000)]
           [1, 2, 3]))"
proof -
  let ?cfg = "\<lparr>ttl = 60, debounceTime = 10, cacheNotFound = True\<rparr>"
  let ?A = "\<lparr>idv = 1, rest = Some ''a'', notFound = False, debounce = False, cachedAt = None\<rparr>"
  let ?C = "\<lparr>idv = 3, rest = Some ''c'', notFound = False, debounce = False, cachedAt = Some (-7)\<rparr>"
  let ?lk = "(\<lambda>ids fw. if 1 \<in> set ids then [(1, ?A)] else []) :: string lookupFn"
  let ?s = "[3 \<mapsto> (?C, Some 100000)] :: (int, string obj) redis"
  have nf: "cacheNotFound ?cfg" by simp
  have sane: "lookup_sane ?lk" by (simp add: lookup_sane_def)
  have wk: "well_keyed 0 ?s [1, 2, 3]" by (simp add: well_keyed_def r_get_def)
  have nomark: "\<forall>i \<in> set [1, 2, 3]. \<forall>x. r_get 0 ?s i = Some x \<longrightarrow> \<not> debounce x"
    by (simp add: r_get_def)
  have keep: "\<forall>i \<in> set [1, 2, 3]. \<forall>x. r_get 0 ?s i = Some x \<longrightarrow> r_get 5000 ?s i = Some x"
    by (simp add: r_get_def live_def)
  have before: "5000 < expires_at 0 (ttl ?cfg)" by (simp add: expires_at_def)
  note th = fetch_twice_no_second_lookup
              [OF nf sane wk nomark keep before, where ?lk2.0 = ?lk and ap = None]
  note l = th [THEN conjunct1]
  note r = th [THEN conjunct2, THEN conjunct2, THEN conjunct2, rule_format, OF refl]
  show ?thesis
    by (intro conjI) (rule l r)+
qed

subsection \<open>C10\<close>

declare digits.simps [simp del]

lemma toString_examples: "toString 1 = ''1''" "toString 450 = ''450''" "toString (-12) = ''-12''"
  by (simp_all add: toString_def digits.simps digit_char_def)

lemma fromEntries_snoc: "fromEntries (es @ [(k, v)]) = (fromEntries es)(k \<mapsto> v)"
  by (simp add: fromEntries_def assign_snoc)

lemma keyed_by_id_last:
  "keyed_by_id rs k =
     (if filter (\<lambda>x. toString (idv x) = k) rs = [] then None
      else Some (last (filter (\<lambda>x. toString (idv x) = k) rs)))"
  by (simp add: keyed_by_id_def split: list.splits)

lemma keyed_by_id_snoc:
  "keyed_by_id (rs @ [x]) k = (if toString (idv x) = k then Some x else keyed_by_id rs k)"
  by (simp add: keyed_by_id_last)

lemma fromEntries_keyed:
  "fromEntries (map (\<lambda>x. (toString (idv x), x)) rs) = keyed_by_id rs"
proof (induction rs rule: rev_induct)
  case Nil
  show ?case by (rule ext) (simp add: fromEntries_def keyed_by_id_def)
next
  case (snoc x rs)
  show ?case
    by (rule ext) (simp add: fromEntries_snoc snoc.IH keyed_by_id_snoc)
qed

lemma below_ten:
  "d < 10 \<Longrightarrow> d = 0 \<or> d = 1 \<or> d = 2 \<or> d = 3 \<or> d = 4 \<or> d = 5 \<or> d = 6 \<or> d = 7 \<or> d = 8
            \<or> d = (9::nat)"
  by arith

lemma digit_val_char: "d < 10 \<Longrightarrow> digit_val (digit_char d) = d"
  by (drule below_ten) (auto simp: digit_val_def digit_char_def)

lemma digits_value: "foldl (\<lambda>a c. 10 * a + digit_val c) 0 (digits n) = n"
proof (induction n rule: digits.induct)
  case (1 n)
  show ?case
  proof (cases "n < 10")
    case True
    then show ?thesis by (subst digits.simps) (simp add: digit_val_char)
  next
    case False
    with 1 show ?thesis
      by (subst digits.simps) (simp add: digit_val_char)
  qed
qed

lemma digits_inj: "digits m = digits n \<Longrightarrow> m = n"
  by (metis digits_value)

lemma digit_char_not_minus: "d < 10 \<Longrightarrow> digit_char d \<noteq> CHR ''-''"
proof
  assume d: "d < 10" and "digit_char d = CHR ''-''"
  then have "digit_val (digit_char d) = digit_val CHR ''-''" by simp
  with d have "d = digit_val CHR ''-''" by (simp add: digit_val_char)
  then have "d = 0" by (simp add: digit_val_def)
  with \<open>digit_char d = CHR ''-''\<close> show False by (simp add: digit_char_def)
qed

lemma digits_hd: "\<exists>c cs. digits n = c # cs \<and> c \<noteq> CHR ''-''"
proof (induction n rule: digits.induct)
  case (1 n)
  show ?case
  proof (cases "n < 10")
    case True
    then show ?thesis by (subst digits.simps) (simp add: digit_char_not_minus)
  next
    case False
    with 1 obtain c cs where "digits (n div 10) = c # cs" "c \<noteq> CHR ''-''" by blast
    with False show ?thesis by (subst digits.simps) simp
  qed
qed

lemma toString_inj: "toString i = toString j \<Longrightarrow> i = j"
proof -
  assume eq: "toString i = toString j"
  obtain c cs where c: "digits (nat i) = c # cs" "c \<noteq> CHR ''-''" using digits_hd by blast
  obtain d ds where d: "digits (nat j) = d # ds" "d \<noteq> CHR ''-''" using digits_hd by blast
  show ?thesis
  proof (cases "i < 0")
    case True
    show ?thesis
    proof (cases "j < 0")
      case jn: True
      with True eq have "digits (nat (- i)) = digits (nat (- j))" by (simp add: toString_def)
      then have "nat (- i) = nat (- j)" by (rule digits_inj)
      with True jn show ?thesis by linarith
    next
      case False
      with True eq d show ?thesis by (simp add: toString_def)
    qed
  next
    case False
    show ?thesis
    proof (cases "j < 0")
      case True
      with False eq c show ?thesis by (simp add: toString_def)
    next
      case jp: False
      with False eq have "digits (nat i) = digits (nat j)" by (simp add: toString_def)
      then have "nat i = nat j" by (rule digits_inj)
      with False jp show ?thesis by linarith
    qed
  qed
qed

lemma keyed_by_id_own:
  assumes "\<forall>x \<in> set rs. \<forall>y \<in> set rs. idv x = idv y \<longrightarrow> x = y" and "x \<in> set rs"
  shows "keyed_by_id rs (toString (idv x)) = Some x"
proof -
  let ?f = "filter (\<lambda>y. toString (idv y) = toString (idv x)) rs"
  have all: "y = x" if "y \<in> set ?f" for y
  proof -
    from that have "y \<in> set rs" "toString (idv y) = toString (idv x)" by simp_all
    then have "idv y = idv x" using toString_inj by blast
    with assms \<open>y \<in> set rs\<close> show ?thesis by blast
  qed
  have "x \<in> set ?f" using assms(2) by simp
  then obtain y ys where f: "?f = y # ys" by (cases ?f) auto
  have "last (y # ys) \<in> set ?f" unfolding f by (rule last_in_set) simp
  then have "last (y # ys) = x" by (rule all)
  then show ?thesis by (simp add: keyed_by_id_def f)
qed

lemma dom_keyed_by_id: "dom (keyed_by_id rs) = (\<lambda>x. toString (idv x)) ` set rs"
  by (auto simp: keyed_by_id_last dom_def filter_empty_conv image_iff)

text \<open>
  C10. The object view's \<open>fetch\<close> makes the array view's \<open>fetch\<close> call for the same
  ids and returns exactly the mapping obtained from its result by keying each entity by
  its stringified identifier; the object view's \<open>bust\<close> and \<open>refresh\<close> are the array
  view's. The keys of the mapping are the stringified ids of the result, and when no
  two entities of the result share an id every entity is found under its own.
\<close>

theorem createCachedObject_rekeys_array_view:
  "c_fetch (createCachedObject cfg lk ap) now s ids
     = \<lparr>or_value = keyed_by_id (fr_results (c_fetch (createCachedArray cfg lk ap) now s ids)),
        or_call = c_fetch (createCachedArray cfg lk ap) now s ids\<rparr>
   \<and> c_bust (createCachedObject cfg lk ap) = c_bust (createCachedArray cfg lk ap)
   \<and> c_refresh (createCachedObject cfg lk ap) = c_refresh (createCachedArray cfg lk ap)
   \<and> dom (or_value (c_fetch (createCachedObject cfg lk ap) now s ids))
       = (\<lambda>x. toString (idv x)) ` set (fr_results (c_fetch (createCachedArray cfg lk ap) now s ids))
   \<and> ((\<forall>x \<in> set (fr_results (c_fetch (createCachedArray cfg lk ap) now s ids)).
         \<forall>y \<in> set (fr_results (c_fetch (createCachedArray cfg lk ap) now s ids)).
           idv x = idv y \<longrightarrow> x = y)
        \<longrightarrow> (\<forall>x \<in> set (fr_results (c_fetch (createCachedArray cfg lk ap) now s ids)).
              or_value (c_fetch (createCachedObject cfg lk ap) now s ids) (toString (idv x)) = Some x))"
proof -
  let ?rs = "fr_results (c_fetch (createCachedArray cfg lk ap) now s ids)"
  have f: "c_fetch (createCachedObject cfg lk ap) now s ids
     = \<lparr>or_value = keyed_by_id ?rs, or_call = c_fetch (createCachedArray cfg lk ap) now s ids\<rparr>"
    by (simp add: createCachedObject_def Let_def fromEntries_keyed)
  have b: "c_bust (createCachedObject cfg lk ap) = c_bust (createCachedArray cfg lk ap)"
    by (simp add: createCachedObject_def Let_def)
  have r: "c_refresh (createCachedObject cfg lk ap) = c_refresh (createCachedArray cfg lk ap)"
    by (simp add: createCachedObject_def Let_def)
  have d: "dom (or_value (c_fetch (createCachedObject cfg lk ap) now s ids))
       = (\<lambda>x. toString (idv x)) ` set ?rs"
    unfolding f by (simp add: dom_keyed_by_id)
  have own: "(\<forall>x \<in> set ?rs. \<forall>y \<in> set ?rs. idv x = idv y \<longrightarrow> x = y)
        \<longrightarrow> (\<forall>x \<in> set ?rs.
              or_value (c_fetch (createCachedObject cfg lk ap) now s ids) (toString (idv x)) = Some x)"
    unfolding f by (simp add: keyed_by_id_own)
  from f b r d own show ?thesis by blast
qed

theorem createCachedObject_rekeys_array_view_witness:
  "fr_results (c_fetch (createCachedArray \<lparr>ttl = 60, debounceTime = 10, cacheNotFound = True\<rparr>
       (\<lambda>ids fw. [(1, \<lparr>idv = 1, rest = Some ''a'', notFound = False, debounce = False,
                        cachedAt = None\<rparr>),
                   (12, \<lparr>idv = 12, rest = Some ''b'', notFound = False, debounce = False,
                         cachedAt = None\<rparr>)]) None) 0 Map.empty [1, 12])
     = [\<lparr>idv = 1, rest = Some ''a'', notFound = False, debounce = False, cachedAt = None\<rparr>,
        \<lparr>idv = 12, rest = Some ''b'', notFound = False, debounce = False, cachedAt = None\<rparr>]
   \<and> or_value (c_fetch (createCachedObject \<lparr>ttl = 60, debounceTime = 10, cacheNotFound = True\<rparr>
       (\<lambda>ids fw. [(1, \<lparr>idv = 1, rest = Some ''a'', notFound = False, debounce = False,
                        cachedAt = None\<rparr>),
                   (12, \<lparr>idv = 12, rest = Some ''b'', notFound = False, debounce = False,
                         cachedAt = None\<rparr>)]) None) 0 Map.empty [1, 12]) ''12''
     = Some \<lparr>idv = 12, rest = Some ''b'', notFound = False, debounce = False, cachedAt = None\<rparr>"
proof -
  let ?cfg = "\<lparr>ttl = 60, debounceTime = 10, cacheNotFound = True\<rparr>"
  let ?A = "\<lparr>idv = 1, rest = Some ''a'', notFound = False, debounce = False, cachedAt = None\<rparr>"
  let ?B = "\<lparr>idv = 12, rest = Some ''b'', notFound = False, debounce = False, cachedAt = None\<rparr>"
  let ?lk = "(\<lambda>ids fw. [(1, ?A), (12, ?B)]) :: string lookupFn"
  have rs: "fr_results (c_fetch (createCachedArray ?cfg ?lk None) 0 Map.empty [1, 12]) = [?A, ?B]"
    by (simp add: createCachedArray_def fetch_eval)
  note th = createCachedObject_rekeys_array_view
              [where cfg = ?cfg and lk = ?lk and ap = None and now = 0 and s = Map.empty
                 and ids = "[1, 12]"]
  note own = th [THEN conjunct2, THEN conjunct2, THEN conjunct2, THEN conjunct2, unfolded rs]
  have h: "\<forall>x \<in> set [?A, ?B]. \<forall>y \<in> set [?A, ?B]. idv x = idv y \<longrightarrow> x = y"
    by simp
  have m: "?B \<in> set [?A, ?B]" by simp
  have k: "toString (idv ?B) = ''12''"
    by (simp add: toString_def digits.simps digit_char_def)
  from own [THEN mp, OF h, THEN bspec, OF m] have v: "or_value (c_fetch (createCachedObject ?cfg ?lk None) 0 Map.empty [1, 12])
          (toString (idv ?B)) = Some ?B" .
  show ?thesis
    using rs v unfolding k by (intro conjI)
qed

end
